theory Spec2Isabelle
  imports Main "HOL-Library.Word"
begin

section \<open>Go error values\<close>

text \<open>
  The sentinel errors that the server tests with \<open>errors.Is\<close>: two of package graph, one
  of package condition, two of package typesystem, and the two errors a cancelled or
  expired \<open>context.Context\<close> reports.
\<close>

datatype sentinel =
    ErrResolutionDepthExceeded
  | ErrCycleDetected
  | ErrEvaluationFailed
  | ErrModelNotFound
  | ErrInvalidModel
  | Canceled
  | DeadlineExceeded

text \<open>
  An error value is a tree: a sentinel or an opaque cause at a leaf; a layer that wraps
  one error, as \<open>fmt.Errorf\<close> with one \<open>%w\<close> builds it; a node over several errors, as
  \<open>errors.Join\<close> and \<open>fmt.Errorf\<close> with several \<open>%w\<close> build it. \<open>errors.Is\<close> searches
  the tree for the target, so that one error can match several sentinels.
\<close>

datatype go_error =
    Sentinel sentinel
  | Opaque string
  | Wrap string go_error
  | Join "go_error list"

fun errors_Is :: "go_error \<Rightarrow> sentinel \<Rightarrow> bool" where
  "errors_Is (Sentinel s) target = (s = target)"
| "errors_Is (Opaque m) target = False"
| "errors_Is (Wrap m e) target = errors_Is e target"
| "errors_Is (Join es) target = list_ex (\<lambda>e. errors_Is e target) es"

text \<open>
  The errors the handlers return to their caller. Package serverErrors is not among the
  sources; each constructor stands for the value that the function or variable of the same
  name yields there, applied to the arguments the handler passes.
  \<open>InvalidArgument m\<close> is \<open>status.Error(codes.InvalidArgument, m)\<close>.
\<close>

datatype server_error =
    InvalidArgument string
  | ValidationError go_error
  | HandleTupleValidateError go_error
  | HandleError string go_error
  | AuthorizationModelResolutionTooComplex
  | LatestAuthorizationModelNotFound string
  | AuthorizationModelNotFound string
  | ConstructionError string

section \<open>Tuple keys\<close>

text \<open>
  The object, relation and user of a tuple. The API has two message types with these three
  fields, one for the key of a check and one for stored and contextual tuples, and
  \<open>tuple.ConvertCheckRequestTupleKeyToTupleKey\<close> copies the first into the second; the
  model has one type for both.
\<close>

record tuple_key =
  object :: string
  relation :: string
  user :: string

section \<open>The bounded-concurrency tuple reader\<close>

subsection \<open>Contexts, calls and the shared state\<close>

datatype read_method = ReadUserTuple | Read | ReadUsersetTuples | ReadStartingWithUser

record rpc_info =
  Service :: string
  Method :: string

datatype done_reason = ByCancel | ByDeadline

text \<open>
  What the reader takes from a \<open>context.Context\<close>: the value of
  \<open>telemetry.RPCInfoFromContext\<close>, the span of \<open>trace.SpanFromContext\<close> (by its
  identifier), and whether the channel \<open>Done()\<close> is closed, with the reason.
\<close>

record go_context =
  ctx_rpcInfo :: rpc_info
  ctx_span :: nat
  ctx_done :: "done_reason option"

text \<open>
  \<open>ctx.Err()\<close>: nil until the context is done, then \<open>context.Canceled\<close> or
  \<open>context.DeadlineExceeded\<close>.
\<close>

definition done_error :: "done_reason \<Rightarrow> go_error" where
  "done_error r =
     (case r of ByCancel \<Rightarrow> Sentinel Canceled | ByDeadline \<Rightarrow> Sentinel DeadlineExceeded)"

definition ctx_Err :: "go_context \<Rightarrow> go_error option" where
  "ctx_Err ctx = map_option done_error (ctx_done ctx)"

text \<open>
  What the wrapped reader hands back: one tuple for \<open>ReadUserTuple\<close>, a lazy iterator
  (the tuples not yet taken from it) for the other three methods.
\<close>

datatype read_value = TupleValue tuple_key | IteratorValue "tuple_key list"

type_synonym read_result = "go_error + read_value"

fun result_of_method :: "read_method \<Rightarrow> read_result \<Rightarrow> bool" where
  "result_of_method m (Inl err) = True"
| "result_of_method ReadUserTuple (Inr (TupleValue t)) = True"
| "result_of_method ReadUserTuple (Inr (IteratorValue ts)) = False"
| "result_of_method m (Inr (TupleValue t)) = False"
| "result_of_method m (Inr (IteratorValue ts)) = True"

datatype select_case = CtxDone | Sent

text \<open>
  Where one call of a read method stands: in \<open>waitForLimiter\<close>, about to run the
  \<open>select\<close>; parked in the \<open>select\<close>, which found neither case able to proceed; past
  the \<open>select\<close>, which has taken a case, with the rest of \<open>waitForLimiter\<close> still to run;
  inside the wrapped reader; before the deferred receive, holding the wrapped reader's
  result; or returned to its caller.
\<close>

datatype pc =
    AtSelect
  | Parked
  | Resolved select_case
  | InWrapped
  | AtRelease read_result
  | Returned read_result

record call =
  c_method :: read_method
  c_ctx :: go_context
  c_start :: int
  c_pc :: pc

text \<open>
  The state the calls share: the number of items in the channel \<open>b.limiter\<close>, the calls
  made so far (a call is named by its position), the clock in nanoseconds, the
  observations of \<open>boundedReadDelayMsHistogram\<close> in order (service label, method label,
  value), the attributes set on spans in order (span, key, value), and the invocations of
  the wrapped reader in order (call, method).
\<close>

record reader_state =
  limiter :: nat
  calls :: "call list"
  clock :: int
  histogram :: "(string \<times> string \<times> int) list"
  span_log :: "(nat \<times> string \<times> int) list"
  wrapped_calls :: "(nat \<times> read_method) list"

record BoundedConcurrencyTupleReader =
  capacity :: nat

text \<open>\<open>make(chan struct{}, concurrency)\<close>: the channel's capacity is the limit.\<close>

definition NewBoundedConcurrencyTupleReader :: "32 word \<Rightarrow> BoundedConcurrencyTupleReader" where
  "NewBoundedConcurrencyTupleReader concurrency = \<lparr> capacity = unat concurrency \<rparr>"

definition init_state :: "int \<Rightarrow> reader_state" where
  "init_state now =
     \<lparr> limiter = 0, calls = [], clock = now, histogram = [], span_log = [], wrapped_calls = [] \<rparr>"

subsection \<open>waitForLimiter\<close>

text \<open>\<open>Duration.Milliseconds\<close>: integer division of the nanoseconds, truncating.\<close>

definition Milliseconds :: "int \<Rightarrow> int" where
  "Milliseconds d = (if 0 \<le> d then d div 1000000 else - ((- d) div 1000000))"

definition timeWaitingSpanAttribute :: string where
  "timeWaitingSpanAttribute = ''time_waiting''"

text \<open>
  The deferred function of \<open>waitForLimiter\<close>: one observation, labelled with the
  service and method of the context, and one attribute on the context's span. The
  histogram takes the value as a \<open>float64\<close>; the model keeps the integer.
\<close>

definition record_wait :: "go_context \<Rightarrow> int \<Rightarrow> reader_state \<Rightarrow> reader_state" where
  "record_wait ctx start s =
    (let timeWaiting = Milliseconds (clock s - start)
     in s\<lparr> histogram := histogram s @
              [(Service (ctx_rpcInfo ctx), Method (ctx_rpcInfo ctx), timeWaiting)],
           span_log := span_log s @ [(ctx_span ctx, timeWaitingSpanAttribute, timeWaiting)] \<rparr>)"

text \<open>
  The \<open>select\<close> when it is run: the case on \<open>ctx.Done()\<close> can proceed once the context
  is done, the send once the channel has room. When both can, the runtime picks one at
  random: \<open>choice\<close> is that pick (true for \<open>ctx.Done()\<close>). When neither can, the call
  is parked on both channels.
\<close>

definition select_limiter ::
  "BoundedConcurrencyTupleReader \<Rightarrow> go_context \<Rightarrow> bool \<Rightarrow> reader_state \<Rightarrow> select_case option" where
  "select_limiter b ctx choice s =
    (let done = (ctx_done ctx \<noteq> None); room = (limiter s < capacity b)
     in if done \<and> room then Some (if choice then CtxDone else Sent)
        else if done then Some CtxDone
        else if room then Some Sent
        else None)"

text \<open>What the case taken does to the channel: the send adds an item.\<close>

definition select_effect :: "select_case \<Rightarrow> reader_state \<Rightarrow> reader_state" where
  "select_effect c s = (case c of CtxDone \<Rightarrow> s | Sent \<Rightarrow> s\<lparr>limiter := limiter s + 1\<rparr>)"

text \<open>
  The rest of \<open>waitForLimiter\<close> once the \<open>select\<close> has taken case \<open>c\<close>: the error
  returned (\<open>ctx.Err()\<close> after the case on \<open>ctx.Done()\<close>, nil, here \<open>None\<close>, after the
  send) and the state after the deferred function; \<open>start\<close> was read from the clock on
  entry.
\<close>

definition waitForLimiter_return ::
  "go_context \<Rightarrow> int \<Rightarrow> select_case \<Rightarrow> reader_state \<Rightarrow> go_error option \<times> reader_state" where
  "waitForLimiter_return ctx start c s =
    ((case c of CtxDone \<Rightarrow> ctx_Err ctx | Sent \<Rightarrow> None), record_wait ctx start s)"

text \<open>
  \<open>waitForLimiter\<close> when its \<open>select\<close> can proceed at once and nothing else happens
  before it returns. No result when the call has to wait.
\<close>

definition waitForLimiter ::
  "BoundedConcurrencyTupleReader \<Rightarrow> go_context \<Rightarrow> int \<Rightarrow> bool \<Rightarrow> reader_state
     \<Rightarrow> (go_error option \<times> reader_state) option" where
  "waitForLimiter b ctx start choice s =
    (case select_limiter b ctx choice s of
       None \<Rightarrow> None
     | Some c \<Rightarrow> Some (waitForLimiter_return ctx start c (select_effect c s)))"

subsection \<open>The read methods, step by step\<close>

text \<open>
  The four read methods have the same body: \<open>waitForLimiter\<close>; on an error return it; else
  defer the receive from \<open>b.limiter\<close> and call the wrapped reader's method of the same
  name. Calls run concurrently, so a method is modelled by the steps it takes on the
  shared state, and a run of the reader is any interleaving of the steps of its calls with
  the steps of their environment:
  \<^item> \<open>Invoke m ctx\<close>: a new call of method \<open>m\<close> enters \<open>waitForLimiter\<close> and reads the clock;
  \<^item> \<open>Elapse d\<close>: \<open>d\<close> nanoseconds pass;
  \<^item> \<open>Cancel i r\<close>: the context of call \<open>i\<close> becomes done; if the call is parked, its
    \<open>select\<close> takes the case on \<open>ctx.Done()\<close> there and then;
  \<^item> \<open>Select i choice\<close>: call \<open>i\<close> runs its \<open>select\<close>, which takes a case that can
    proceed or parks the call;
  \<^item> \<open>Wake i\<close>: the channel has room again and the send of the parked call \<open>i\<close> takes
    it;
  \<^item> \<open>Resume i\<close>: call \<open>i\<close>, whose \<open>select\<close> has taken a case, runs on:
    \<open>waitForLimiter\<close> returns through its deferred function, and the method either
    returns the error or invokes the wrapped reader;
  \<^item> \<open>Handoff i j\<close>: on a channel of capacity 0, the send of call \<open>i\<close> meets the deferred
    receive of call \<open>j\<close>;
  \<^item> \<open>WrappedReturns i r\<close>: the wrapped reader returns \<open>r\<close> to call \<open>i\<close>;
  \<^item> \<open>Release i\<close>: the deferred receive of call \<open>i\<close> takes an item from the channel and the
    method returns;
  \<^item> \<open>Next i\<close>: the caller of call \<open>i\<close> takes one tuple from the iterator it was given.
  A step that cannot be taken in a state (its call waits, or is elsewhere) yields \<open>None\<close>.
  A parked \<open>select\<close> is decided by the first of its cases that can proceed, and by no
  later one: \<open>Cancel\<close> and \<open>Wake\<close> fix the case of a parked call, and \<open>Resume\<close> only
  carries it out. The Go runtime hands a freed slot to the longest-parked sender within
  the receive itself; here the receive and the waking are two steps and any parked call
  may be woken, which admits every schedule of the runtime and some more.
\<close>

datatype event =
    Invoke read_method go_context
  | Elapse nat
  | Cancel nat done_reason
  | Select nat bool
  | Wake nat
  | Resume nat
  | Handoff nat nat
  | WrappedReturns nat read_result
  | Release nat
  | Next nat

definition set_pc :: "nat \<Rightarrow> pc \<Rightarrow> reader_state \<Rightarrow> reader_state" where
  "set_pc i p s = s\<lparr>calls := (calls s)[i := (calls s ! i)\<lparr>c_pc := p\<rparr>]\<rparr>"

text \<open>What a read method does with the result of \<open>waitForLimiter\<close>.\<close>

definition after_wait :: "nat \<Rightarrow> go_error option \<times> reader_state \<Rightarrow> reader_state" where
  "after_wait i r =
    (case r of
       (Some err, s) \<Rightarrow> set_pc i (Returned (Inl err)) s
     | (None, s) \<Rightarrow>
         (set_pc i InWrapped s)\<lparr>wrapped_calls := wrapped_calls s @ [(i, c_method (calls s ! i))]\<rparr>)"

text \<open>
  Modelled from the spec: the iterator type of package storage is not among the sources.
  "Iterators are lazy; callers MUST drain or close them": taking the next tuple from an
  iterator leaves the tuples after it; there is none to take from an exhausted iterator,
  and none from a single tuple or an error, which are not iterators.
\<close>

fun iterator_Next :: "read_result \<Rightarrow> read_result option" where
  "iterator_Next (Inr (IteratorValue (t # ts))) = Some (Inr (IteratorValue ts))"
| "iterator_Next r = None"

text \<open>
  The context of a call becomes done; a call that is parked in its \<open>select\<close> is taken
  out of it by the case on \<open>ctx.Done()\<close>.
\<close>

definition cancel_call :: "done_reason \<Rightarrow> call \<Rightarrow> call" where
  "cancel_call r c =
     c\<lparr> c_ctx := (c_ctx c)\<lparr>ctx_done := Some r\<rparr>,
        c_pc := (if c_pc c = Parked then Resolved CtxDone else c_pc c) \<rparr>"

fun is_AtRelease :: "pc \<Rightarrow> bool" where
  "is_AtRelease (AtRelease r) = True"
| "is_AtRelease p = False"

fun step :: "BoundedConcurrencyTupleReader \<Rightarrow> event \<Rightarrow> reader_state \<Rightarrow> reader_state option" where
  "step b (Invoke m ctx) s =
     Some (s\<lparr>calls := calls s @ [\<lparr> c_method = m, c_ctx = ctx, c_start = clock s, c_pc = AtSelect \<rparr>]\<rparr>)"
| "step b (Elapse d) s = Some (s\<lparr>clock := clock s + int d\<rparr>)"
| "step b (Cancel i r) s =
     (if i < length (calls s) \<and> ctx_done (c_ctx (calls s ! i)) = None
      then Some (s\<lparr>calls := (calls s)[i := cancel_call r (calls s ! i)]\<rparr>)
      else None)"
| "step b (Select i choice) s =
     (if i < length (calls s) \<and> c_pc (calls s ! i) = AtSelect
      then (case select_limiter b (c_ctx (calls s ! i)) choice s of
              None \<Rightarrow> Some (set_pc i Parked s)
            | Some c \<Rightarrow> Some (set_pc i (Resolved c) (select_effect c s)))
      else None)"
| "step b (Wake i) s =
     (if i < length (calls s) \<and> c_pc (calls s ! i) = Parked \<and> limiter s < capacity b
      then Some (set_pc i (Resolved Sent) (select_effect Sent s))
      else None)"
| "step b (Resume i) s =
     (if i < length (calls s)
      then (case c_pc (calls s ! i) of
              Resolved c \<Rightarrow>
                Some (after_wait i
                       (waitForLimiter_return (c_ctx (calls s ! i)) (c_start (calls s ! i)) c s))
            | _ \<Rightarrow> None)
      else None)"
| "step b (Handoff i j) s =
     (if i < length (calls s) \<and> j < length (calls s) \<and> capacity b = 0
         \<and> (c_pc (calls s ! i) = AtSelect \<or> c_pc (calls s ! i) = Parked)
      then (case c_pc (calls s ! j) of
              AtRelease r \<Rightarrow> Some (set_pc j (Returned r) (set_pc i (Resolved Sent) s))
            | _ \<Rightarrow> None)
      else None)"
| "step b (WrappedReturns i r) s =
     (if i < length (calls s) \<and> c_pc (calls s ! i) = InWrapped
         \<and> result_of_method (c_method (calls s ! i)) r
      then Some (set_pc i (AtRelease r) s)
      else None)"
| "step b (Release i) s =
     (if i < length (calls s) \<and> 0 < limiter s
      then (case c_pc (calls s ! i) of
              AtRelease r \<Rightarrow> Some (set_pc i (Returned r) (s\<lparr>limiter := limiter s - 1\<rparr>))
            | _ \<Rightarrow> None)
      else None)"
| "step b (Next i) s =
     (if i < length (calls s)
      then (case c_pc (calls s ! i) of
              Returned r \<Rightarrow> map_option (\<lambda>r'. set_pc i (Returned r') s) (iterator_Next r)
            | _ \<Rightarrow> None)
      else None)"

text \<open>A run: the events in order, as long as each can be taken.\<close>

fun run :: "BoundedConcurrencyTupleReader \<Rightarrow> event list \<Rightarrow> reader_state \<Rightarrow> reader_state option" where
  "run b [] s = Some s"
| "run b (e # es) s = (case step b e s of None \<Rightarrow> None | Some s' \<Rightarrow> run b es s')"

text \<open>
  A call holds a slot of the limiter from its successful send to its deferred receive; the
  wrapped reader executes for it between its invocation and its return.
\<close>

fun holds_slot :: "call \<Rightarrow> bool" where
  "holds_slot c = (c_pc c = Resolved Sent \<or> c_pc c = InWrapped \<or> is_AtRelease (c_pc c))"

definition in_wrapped :: "call \<Rightarrow> bool" where
  "in_wrapped c = (c_pc c = InWrapped)"

fun left_waitForLimiter :: "pc \<Rightarrow> bool" where
  "left_waitForLimiter AtSelect = False"
| "left_waitForLimiter Parked = False"
| "left_waitForLimiter (Resolved c) = False"
| "left_waitForLimiter p = True"

definition past_select :: "call \<Rightarrow> bool" where
  "past_select c = left_waitForLimiter (c_pc c)"

definition executing :: "reader_state \<Rightarrow> nat" where
  "executing s = length (filter in_wrapped (calls s))"

definition holders :: "reader_state \<Rightarrow> nat" where
  "holders s = length (filter holds_slot (calls s))"

definition passed :: "reader_state \<Rightarrow> nat" where
  "passed s = length (filter past_select (calls s))"

text \<open>
  The invariant of the limiter: the items in the channel are the slots held, and there
  are no more of them than the channel's capacity.
\<close>

definition limiter_inv :: "BoundedConcurrencyTupleReader \<Rightarrow> reader_state \<Rightarrow> bool" where
  "limiter_inv b s = (limiter s = holders s \<and> limiter s \<le> capacity b)"

text \<open>
  The invariant of the telemetry: one observation and one span attribute for each call
  that has left \<open>waitForLimiter\<close>.
\<close>

definition recorded_inv :: "reader_state \<Rightarrow> bool" where
  "recorded_inv s = (length (histogram s) = passed s \<and> length (span_log s) = passed s)"

text \<open>
  The invariant of the contexts: a call is parked only while its context is live, and the
  case on \<open>ctx.Done()\<close> is taken only for a context that is done.
\<close>

definition context_ok :: "call \<Rightarrow> bool" where
  "context_ok c =
     ((c_pc c = Parked \<longrightarrow> ctx_done (c_ctx c) = None)
      \<and> (c_pc c = Resolved CtxDone \<longrightarrow> ctx_done (c_ctx c) \<noteq> None))"

definition context_inv :: "reader_state \<Rightarrow> bool" where
  "context_inv s = list_all context_ok (calls s)"

text \<open>
  The invariant of the invocations: the wrapped reader has been invoked only for calls that
  are inside it or beyond.
\<close>

definition invoked :: "reader_state \<Rightarrow> nat \<Rightarrow> bool" where
  "invoked s i = list_ex (\<lambda>(k, m). k = i) (wrapped_calls s)"

definition invoked_inv :: "reader_state \<Rightarrow> bool" where
  "invoked_inv s =
     list_all (\<lambda>(k, m). k < length (calls s) \<and> left_waitForLimiter (c_pc (calls s ! k)))
       (wrapped_calls s)"

text \<open>
  A call whose wait was ended by its context, for reason \<open>r\<close>: its \<open>select\<close> has taken
  the case on \<open>ctx.Done()\<close>, or it has already returned the context's error.
\<close>

definition aborted :: "done_reason \<Rightarrow> call \<Rightarrow> bool" where
  "aborted r c =
     (ctx_done (c_ctx c) = Some r
      \<and> (c_pc c = Resolved CtxDone \<or> c_pc c = Returned (Inl (done_error r))))"

text \<open>The four invariants together.\<close>

definition reader_inv :: "BoundedConcurrencyTupleReader \<Rightarrow> reader_state \<Rightarrow> bool" where
  "reader_inv b s = (limiter_inv b s \<and> context_inv s \<and> recorded_inv s \<and> invoked_inv s)"

text \<open>
  What stays of a call from one state to a later one: its method, the time it entered,
  the telemetry of its context, and that it has left \<open>waitForLimiter\<close> once it has.
\<close>

definition same_call :: "call \<Rightarrow> call \<Rightarrow> bool" where
  "same_call c c' =
     (c_method c' = c_method c \<and> c_start c' = c_start c
      \<and> ctx_rpcInfo (c_ctx c') = ctx_rpcInfo (c_ctx c)
      \<and> ctx_span (c_ctx c') = ctx_span (c_ctx c)
      \<and> (left_waitForLimiter (c_pc c) \<longrightarrow> left_waitForLimiter (c_pc c')))"

section \<open>The server and its construction\<close>

datatype datastore = Datastore string

datatype resolver_id = CycleDetectionCheckResolver | CachedCheckResolver | LocalChecker

text \<open>
  The fields of \<open>Server\<close> that the modelled functions read or write. The resolvers are
  objects with a mutable delegate; \<open>delegates\<close> is the store holding, for each resolver
  that was constructed and given one, the resolver it delegates to.
\<close>

record server =
  datastore :: "datastore option"
  resolveNodeLimit :: "32 word"
  resolveNodeBreadthLimit :: "32 word"
  maxConcurrentReadsForCheck :: "32 word"
  serviceName :: string
  checkQueryCacheEnabled :: bool
  checkQueryCacheLimit :: "32 word"
  checkQueryCacheTTL :: int
  cachedCheckResolverCloser :: "resolver_id option"
  checkResolver :: "resolver_id option"
  delegates :: "resolver_id \<rightharpoonup> resolver_id"
  requestDurationByQueryHistogramBuckets :: "nat list"

text \<open>
  The constants of package serverconfig and the service name of the generated API package
  (\<open>openfgav1.OpenFGAService_ServiceDesc.ServiceName\<close>), none of which is among the
  sources.
\<close>

record serverconfig =
  ServiceName :: string
  DefaultResolveNodeLimit :: "32 word"
  DefaultResolveNodeBreadthLimit :: "32 word"
  DefaultMaxConcurrentReadsForCheck :: "32 word"
  DefaultCheckQueryCacheEnable :: bool
  DefaultCheckQueryCacheLimit :: "32 word"
  DefaultCheckQueryCacheTTL :: int

type_synonym OpenFGAServiceV1Option = "server \<Rightarrow> server"

definition WithDatastore :: "datastore \<Rightarrow> OpenFGAServiceV1Option" where
  "WithDatastore ds = (\<lambda>s. s\<lparr>datastore := Some ds\<rparr>)"

definition WithResolveNodeLimit :: "32 word \<Rightarrow> OpenFGAServiceV1Option" where
  "WithResolveNodeLimit limit = (\<lambda>s. s\<lparr>resolveNodeLimit := limit\<rparr>)"

definition WithResolveNodeBreadthLimit :: "32 word \<Rightarrow> OpenFGAServiceV1Option" where
  "WithResolveNodeBreadthLimit limit = (\<lambda>s. s\<lparr>resolveNodeBreadthLimit := limit\<rparr>)"

definition WithMaxConcurrentReadsForCheck :: "32 word \<Rightarrow> OpenFGAServiceV1Option" where
  "WithMaxConcurrentReadsForCheck m = (\<lambda>s. s\<lparr>maxConcurrentReadsForCheck := m\<rparr>)"

definition WithCheckQueryCacheEnabled :: "bool \<Rightarrow> OpenFGAServiceV1Option" where
  "WithCheckQueryCacheEnabled enabled = (\<lambda>s. s\<lparr>checkQueryCacheEnabled := enabled\<rparr>)"

definition WithCheckQueryCacheLimit :: "32 word \<Rightarrow> OpenFGAServiceV1Option" where
  "WithCheckQueryCacheLimit limit = (\<lambda>s. s\<lparr>checkQueryCacheLimit := limit\<rparr>)"

definition WithCheckQueryCacheTTL :: "int \<Rightarrow> OpenFGAServiceV1Option" where
  "WithCheckQueryCacheTTL ttl = (\<lambda>s. s\<lparr>checkQueryCacheTTL := ttl\<rparr>)"

definition WithRequestDurationByQueryHistogramBuckets :: "nat list \<Rightarrow> OpenFGAServiceV1Option" where
  "WithRequestDurationByQueryHistogramBuckets buckets =
     (\<lambda>s. s\<lparr>requestDurationByQueryHistogramBuckets := sort buckets\<rparr>)"

text \<open>\<open>r.SetDelegate(d)\<close> on the store of resolver objects.\<close>

definition SetDelegate ::
  "resolver_id \<Rightarrow> resolver_id \<Rightarrow> (resolver_id \<rightharpoonup> resolver_id) \<Rightarrow> (resolver_id \<rightharpoonup> resolver_id)" where
  "SetDelegate r d store = store(r \<mapsto> d)"

text \<open>
  \<open>NewServerWithOpts\<close>: the defaults, then the options in order, then the resolvers. The
  resolver objects are local to the function, so their store starts empty whatever the
  options did; the cached resolver exists only when the cache is enabled. The two checks
  that can fail come last, as in the source.
\<close>

definition NewServerWithOpts ::
  "serverconfig \<Rightarrow> OpenFGAServiceV1Option list \<Rightarrow> server_error + server" where
  "NewServerWithOpts cfg opts =
    (let s0 = \<lparr> datastore = None,
                resolveNodeLimit = DefaultResolveNodeLimit cfg,
                resolveNodeBreadthLimit = DefaultResolveNodeBreadthLimit cfg,
                maxConcurrentReadsForCheck = DefaultMaxConcurrentReadsForCheck cfg,
                serviceName = ServiceName cfg,
                checkQueryCacheEnabled = DefaultCheckQueryCacheEnable cfg,
                checkQueryCacheLimit = DefaultCheckQueryCacheLimit cfg,
                checkQueryCacheTTL = DefaultCheckQueryCacheTTL cfg,
                cachedCheckResolverCloser = None,
                checkResolver = None,
                delegates = Map.empty,
                requestDurationByQueryHistogramBuckets = [50, 200] \<rparr>;
         s1 = fold (\<lambda>opt s. opt s) opts s0;
         s2 = s1\<lparr>checkResolver := Some CycleDetectionCheckResolver\<rparr>;
         d1 = SetDelegate CycleDetectionCheckResolver LocalChecker Map.empty;
         d2 = SetDelegate LocalChecker CycleDetectionCheckResolver d1;
         s3 = (if checkQueryCacheEnabled s2
               then s2\<lparr>cachedCheckResolverCloser := Some CachedCheckResolver,
                       delegates :=
                         SetDelegate CycleDetectionCheckResolver CachedCheckResolver
                           (SetDelegate CachedCheckResolver LocalChecker d2)\<rparr>
               else s2\<lparr>delegates := d2\<rparr>)
     in if datastore s3 = None
        then Inl (ConstructionError ''a datastore option must be provided'')
        else if length (requestDurationByQueryHistogramBuckets s3) = 0
        then Inl (ConstructionError
                    ''request duration datastore count buckets must not be empty'')
        else Inr s3)"

text \<open>
  The resolvers a request visits from resolver \<open>r\<close> on, following the delegates for
  \<open>n\<close> hops; the walk stops at a resolver without delegate.
\<close>

fun delegation_path :: "(resolver_id \<rightharpoonup> resolver_id) \<Rightarrow> nat \<Rightarrow> resolver_id \<Rightarrow> resolver_id list" where
  "delegation_path store 0 r = [r]"
| "delegation_path store (Suc n) r =
     (case store r of None \<Rightarrow> [r] | Some d \<Rightarrow> r # delegation_path store n d)"

section \<open>Resolving the typesystem and answering Check\<close>

record typesystem =
  AuthorizationModelID :: string

record check_request =
  StoreId :: string
  AuthorizationModelId :: string
  TupleKey :: tuple_key
  ContextualTuples :: "tuple_key list"
  Context :: "(string \<times> string) list"

record check_response =
  Allowed :: bool

record resolution_metadata =
  Depth :: "32 word"
  DatastoreQueryCount :: "32 word"

record resolve_check_request =
  rq_StoreID :: string
  rq_AuthorizationModelID :: string
  rq_TupleKey :: tuple_key
  rq_ContextualTuples :: "tuple_key list"
  rq_Context :: "(string \<times> string) list"
  rq_ResolutionMetadata :: resolution_metadata

text \<open>
  The response of a resolver, with the counters and the flag of its resolution metadata.
  A resolver that returns no error returns a response that carries its metadata: the
  handler reads the counters from it without a test for nil.
\<close>

record resolve_check_response =
  rs_Allowed :: bool
  rs_DatastoreQueryCount :: "32 word"
  rs_DispatchCount :: "32 word"
  rs_CycleDetected :: bool

text \<open>
  What \<open>Server.Check\<close> puts into the context of the resolution: the typesystem, and the
  bounded reader it builds over the combined reader of the datastore and the contextual
  tuples (the combined reader is not among the sources; its two arguments stand for it).
\<close>

record resolution_context =
  cx_typesystem :: typesystem
  cx_datastore :: "datastore option"
  cx_contextual :: "tuple_key list"
  cx_reader :: BoundedConcurrencyTupleReader

text \<open>
  The collaborators of the handlers that are not among the sources, taken as parameters:
  the request validator, the memoized typesystem resolver, the two validations of package
  validation, and \<open>ResolveCheck\<close> of the resolver the server enters.
\<close>

record collaborators =
  Validate :: "check_request \<Rightarrow> string option"
  typesystemResolver :: "string \<Rightarrow> string \<Rightarrow> go_error + typesystem"
  ValidateUserObjectRelation :: "typesystem \<Rightarrow> tuple_key \<Rightarrow> go_error option"
  ValidateTuple :: "typesystem \<Rightarrow> tuple_key \<Rightarrow> go_error option"
  ResolveCheck :: "resolution_context \<Rightarrow> resolve_check_request \<Rightarrow> go_error + resolve_check_response"

text \<open>
  \<open>resolveTypesystem\<close>. On success the source also records the resolved model id on the
  span, the context tags and a response header; those writes do not change what is
  returned.
\<close>

definition resolveTypesystem ::
  "collaborators \<Rightarrow> string \<Rightarrow> string \<Rightarrow> server_error + typesystem" where
  "resolveTypesystem env storeID modelID =
    (case typesystemResolver env storeID modelID of
       Inl err \<Rightarrow>
         if errors_Is err ErrModelNotFound
         then (if modelID = []
               then Inl (LatestAuthorizationModelNotFound storeID)
               else Inl (AuthorizationModelNotFound modelID))
         else if errors_Is err ErrInvalidModel
         then Inl (ValidationError err)
         else Inl (HandleError [] err)
     | Inr typesys \<Rightarrow> Inr typesys)"

text \<open>The loop over the contextual tuples: the first tuple that fails validation ends it.\<close>

fun validate_contextual :: "(tuple_key \<Rightarrow> go_error option) \<Rightarrow> tuple_key list \<Rightarrow> go_error option" where
  "validate_contextual v [] = None"
| "validate_contextual v (t # ts) =
     (case v t of Some err \<Rightarrow> Some err | None \<Rightarrow> validate_contextual v ts)"

text \<open>The context and the request that \<open>Server.Check\<close> hands to the resolver.\<close>

definition check_context :: "server \<Rightarrow> typesystem \<Rightarrow> check_request \<Rightarrow> resolution_context" where
  "check_context s typesys req =
     \<lparr> cx_typesystem = typesys,
       cx_datastore = datastore s,
       cx_contextual = ContextualTuples req,
       cx_reader = NewBoundedConcurrencyTupleReader (maxConcurrentReadsForCheck s) \<rparr>"

definition check_resolve_request :: "server \<Rightarrow> typesystem \<Rightarrow> check_request \<Rightarrow> resolve_check_request" where
  "check_resolve_request s typesys req =
     \<lparr> rq_StoreID = StoreId req,
       rq_AuthorizationModelID = AuthorizationModelID typesys,
       rq_TupleKey = TupleKey req,
       rq_ContextualTuples = ContextualTuples req,
       rq_Context = Context req,
       rq_ResolutionMetadata = \<lparr> Depth = resolveNodeLimit s, DatastoreQueryCount = 0 \<rparr> \<rparr>"

text \<open>
  \<open>Server.Check\<close>, its result as a function of the request; \<open>validated\<close> is
  \<open>validator.RequestIsValidatedFromContext(ctx)\<close>. The telemetry the handler writes
  (span attributes, histograms) is left out: nothing returned depends on it.
\<close>

definition Check ::
  "collaborators \<Rightarrow> server \<Rightarrow> bool \<Rightarrow> check_request \<Rightarrow> server_error + check_response" where
  "Check env s validated req =
    (case (if \<not> validated then Validate env req else None) of
       Some msg \<Rightarrow> Inl (InvalidArgument msg)
     | None \<Rightarrow>
    (case resolveTypesystem env (StoreId req) (AuthorizationModelId req) of
       Inl e \<Rightarrow> Inl e
     | Inr typesys \<Rightarrow>
    (case ValidateUserObjectRelation env typesys (TupleKey req) of
       Some err \<Rightarrow> Inl (ValidationError err)
     | None \<Rightarrow>
    (case validate_contextual (ValidateTuple env typesys) (ContextualTuples req) of
       Some err \<Rightarrow> Inl (HandleTupleValidateError err)
     | None \<Rightarrow>
    (case ResolveCheck env (check_context s typesys req) (check_resolve_request s typesys req) of
       Inl err \<Rightarrow>
         if errors_Is err ErrResolutionDepthExceeded \<or> errors_Is err ErrCycleDetected
         then Inl AuthorizationModelResolutionTooComplex
         else if errors_Is err ErrEvaluationFailed
         then Inl (ValidationError err)
         else Inl (HandleError [] err)
     | Inr resp \<Rightarrow> Inr \<lparr> Allowed = rs_Allowed resp \<rparr>)))))"

section \<open>Paths of Check and example inputs\<close>

text \<open>
  \<open>Server.Check\<close> calls the resolver once the request validation, the typesystem
  resolution and the two tuple validations have passed.
\<close>

definition resolution_reached ::
  "collaborators \<Rightarrow> bool \<Rightarrow> check_request \<Rightarrow> typesystem \<Rightarrow> bool" where
  "resolution_reached env validated req typesys =
    ((validated \<or> Validate env req = None)
     \<and> resolveTypesystem env (StoreId req) (AuthorizationModelId req) = Inr typesys
     \<and> ValidateUserObjectRelation env typesys (TupleKey req) = None
     \<and> validate_contextual (ValidateTuple env typesys) (ContextualTuples req) = None)"

text \<open>
  Collaborators that accept every request and tuple, with a typesystem resolver that
  answers \<open>ts\<close> and a resolver that answers \<open>r\<close>.
\<close>

definition stub_collaborators ::
  "go_error + typesystem \<Rightarrow> go_error + resolve_check_response \<Rightarrow> collaborators" where
  "stub_collaborators ts r =
     \<lparr> Validate = (\<lambda>req. None),
       typesystemResolver = (\<lambda>storeID modelID. ts),
       ValidateUserObjectRelation = (\<lambda>typesys tk. None),
       ValidateTuple = (\<lambda>typesys tk. None),
       ResolveCheck = (\<lambda>ctx req. r) \<rparr>"

definition example_typesystem :: typesystem where
  "example_typesystem = \<lparr> AuthorizationModelID = ''01HVMMBCMGZNT3SED4Z17ECXCA'' \<rparr>"

definition example_config :: serverconfig where
  "example_config =
     \<lparr> ServiceName = ''openfga.v1.OpenFGAService'',
       DefaultResolveNodeLimit = 25,
       DefaultResolveNodeBreadthLimit = 100,
       DefaultMaxConcurrentReadsForCheck = 4294967295,
       DefaultCheckQueryCacheEnable = False,
       DefaultCheckQueryCacheLimit = 10000,
       DefaultCheckQueryCacheTTL = 10000000000 \<rparr>"

definition example_server :: server where
  "example_server =
     \<lparr> datastore = Some (Datastore ''memory''),
       resolveNodeLimit = 25,
       resolveNodeBreadthLimit = 100,
       maxConcurrentReadsForCheck = 4294967295,
       serviceName = ''openfga.v1.OpenFGAService'',
       checkQueryCacheEnabled = False,
       checkQueryCacheLimit = 10000,
       checkQueryCacheTTL = 10000000000,
       cachedCheckResolverCloser = None,
       checkResolver = Some CycleDetectionCheckResolver,
       delegates = [CycleDetectionCheckResolver \<mapsto> LocalChecker,
                    LocalChecker \<mapsto> CycleDetectionCheckResolver],
       requestDurationByQueryHistogramBuckets = [50, 200] \<rparr>"

text \<open>The check of scenario S5: \<open>doc:1#a@user:x\<close> on the model \<open>doc.a := b; doc.b := a\<close>.\<close>

definition example_request :: check_request where
  "example_request =
     \<lparr> StoreId = ''01HVMMBCMGZNT3SED4Z17ECXCB'',
       AuthorizationModelId = [],
       TupleKey = \<lparr> object = ''doc:1'', relation = ''a'', user = ''user:x'' \<rparr>,
       ContextualTuples = [],
       Context = [] \<rparr>"

definition example_context :: "nat \<Rightarrow> done_reason option \<Rightarrow> go_context" where
  "example_context sp d =
     \<lparr> ctx_rpcInfo = \<lparr> Service = ''openfga.v1.OpenFGAService'', Method = ''Check'' \<rparr>,
       ctx_span = sp,
       ctx_done = d \<rparr>"

definition example_tuple :: tuple_key where
  "example_tuple = \<lparr> object = ''document:1'', relation = ''viewer'', user = ''user:alice'' \<rparr>"


section \<open>Properties of the server\<close>

lemma Check_after_resolution:
  assumes "resolution_reached env validated req typesys"
  shows "Check env s validated req =
    (case ResolveCheck env (check_context s typesys req) (check_resolve_request s typesys req) of
       Inl err \<Rightarrow>
         if errors_Is err ErrResolutionDepthExceeded \<or> errors_Is err ErrCycleDetected
         then Inl AuthorizationModelResolutionTooComplex
         else if errors_Is err ErrEvaluationFailed
         then Inl (ValidationError err)
         else Inl (HandleError [] err)
     | Inr resp \<Rightarrow> Inr \<lparr> Allowed = rs_Allowed resp \<rparr>)"
  using assms unfolding resolution_reached_def Check_def
  by (auto split: option.splits sum.splits)

lemma stub_reaches_resolution:
  "resolution_reached (stub_collaborators (Inr typesys) r) validated example_request typesys"
  by (simp add: resolution_reached_def stub_collaborators_def resolveTypesystem_def
      example_request_def)

lemma stub_ResolveCheck: "ResolveCheck (stub_collaborators ts r) ctx rq = r"
  by (simp add: stub_collaborators_def)

text \<open>
  Claim C2, as the code has it: a cycle that resolution reports as the error
  \<open>ErrCycleDetected\<close> is surfaced by \<open>Server.Check\<close> as the error
  \<open>AuthorizationModelResolutionTooComplex\<close>, with no decision; a response of the
  resolver, whatever its \<open>cycleDetected\<close> flag, is answered with its \<open>allowed\<close> value and
  no error.
\<close>

theorem check_cycle_surfacing:
  assumes "resolution_reached env validated req typesys"
  shows "(case ResolveCheck env (check_context s typesys req) (check_resolve_request s typesys req) of
            Inl err \<Rightarrow> errors_Is err ErrCycleDetected \<longrightarrow>
                         Check env s validated req = Inl AuthorizationModelResolutionTooComplex
          | Inr resp \<Rightarrow> Check env s validated req = Inr \<lparr> Allowed = rs_Allowed resp \<rparr>)"
  by (simp add: Check_after_resolution [OF assms] split: sum.splits)

theorem check_cycle_surfacing_witness:
  "resolution_reached
     (stub_collaborators (Inr example_typesystem)
        (Inr \<lparr> rs_Allowed = False, rs_DatastoreQueryCount = 0, rs_DispatchCount = 2,
               rs_CycleDetected = True \<rparr>))
     False example_request example_typesystem
   \<and> Check
       (stub_collaborators (Inr example_typesystem)
          (Inr \<lparr> rs_Allowed = False, rs_DatastoreQueryCount = 0, rs_DispatchCount = 2,
                 rs_CycleDetected = True \<rparr>))
       example_server False example_request
     = Inr \<lparr> Allowed = False \<rparr>"
proof -
  let ?r = "Inr \<lparr> rs_Allowed = False, rs_DatastoreQueryCount = 0, rs_DispatchCount = 2,
                   rs_CycleDetected = True \<rparr> :: go_error + resolve_check_response"
  have h: "resolution_reached (stub_collaborators (Inr example_typesystem) ?r)
             False example_request example_typesystem"
    by (rule stub_reaches_resolution)
  from check_cycle_surfacing [OF h, of example_server] h show ?thesis
    by (simp add: stub_ResolveCheck)
qed

text \<open>
  The claim as the specification words it fails: on scenario S5, with a resolver that
  reports the cycle as \<open>ErrCycleDetected\<close>, \<open>Server.Check\<close> returns an error.
\<close>

theorem check_cycle_error_counterexample:
  "Check (stub_collaborators (Inr example_typesystem) (Inl (Sentinel ErrCycleDetected)))
     example_server False example_request
   = Inl AuthorizationModelResolutionTooComplex"
  by (simp add: Check_after_resolution [OF stub_reaches_resolution] stub_ResolveCheck)

text \<open>
  Claim C3: in a constructed server the entry point is the cycle-detection resolver; with
  the query cache enabled it delegates to the cached resolver and that one to the
  LocalChecker, otherwise it delegates to the LocalChecker directly; in both
  configurations the LocalChecker delegates to the cycle-detection resolver, so a
  recursive dispatch passes through cycle detection and, when enabled, the cache before
  it reaches the LocalChecker again.
\<close>

theorem resolver_topology:
  assumes "NewServerWithOpts cfg opts = Inr s"
  shows "checkResolver s = Some CycleDetectionCheckResolver
    \<and> delegates s LocalChecker = Some CycleDetectionCheckResolver
    \<and> (if checkQueryCacheEnabled s
       then delegates s CycleDetectionCheckResolver = Some CachedCheckResolver
          \<and> delegates s CachedCheckResolver = Some LocalChecker
          \<and> delegation_path (delegates s) 3 LocalChecker =
              [LocalChecker, CycleDetectionCheckResolver, CachedCheckResolver, LocalChecker]
       else delegates s CycleDetectionCheckResolver = Some LocalChecker
          \<and> delegates s CachedCheckResolver = None
          \<and> delegation_path (delegates s) 2 LocalChecker =
              [LocalChecker, CycleDetectionCheckResolver, LocalChecker])"
  using assms unfolding NewServerWithOpts_def Let_def SetDelegate_def
  by (auto split: if_splits simp: numeral_3_eq_3 numeral_2_eq_2)

theorem resolver_topology_witness:
  "\<exists>s. NewServerWithOpts example_config
          [WithDatastore (Datastore ''memory''), WithCheckQueryCacheEnabled True] = Inr s
     \<and> checkQueryCacheEnabled s
     \<and> checkResolver s = Some CycleDetectionCheckResolver
     \<and> delegation_path (delegates s) 3 LocalChecker =
         [LocalChecker, CycleDetectionCheckResolver, CachedCheckResolver, LocalChecker]"
proof -
  have "\<exists>s. NewServerWithOpts example_config
          [WithDatastore (Datastore ''memory''), WithCheckQueryCacheEnabled True] = Inr s
          \<and> checkQueryCacheEnabled s"
    by (simp add: NewServerWithOpts_def Let_def WithDatastore_def WithCheckQueryCacheEnabled_def
        example_config_def)
  then obtain s where s: "NewServerWithOpts example_config
          [WithDatastore (Datastore ''memory''), WithCheckQueryCacheEnabled True] = Inr s"
    and c: "checkQueryCacheEnabled s" by blast
  from resolver_topology [OF s] c s show ?thesis by auto
qed

text \<open>
  Claim C4: when resolution fails with an error that is \<open>ErrResolutionDepthExceeded\<close>,
  \<open>Server.Check\<close> returns the error \<open>AuthorizationModelResolutionTooComplex\<close> and no
  decision.
\<close>

theorem check_depth_exceeded:
  assumes "resolution_reached env validated req typesys"
    and "ResolveCheck env (check_context s typesys req) (check_resolve_request s typesys req) = Inl err"
    and "errors_Is err ErrResolutionDepthExceeded"
  shows "Check env s validated req = Inl AuthorizationModelResolutionTooComplex"
  using assms(2,3) by (simp add: Check_after_resolution [OF assms(1)])

theorem check_depth_exceeded_witness:
  "resolution_reached
     (stub_collaborators (Inr example_typesystem)
        (Inl (Wrap ''dispatch'' (Sentinel ErrResolutionDepthExceeded))))
     False example_request example_typesystem
   \<and> errors_Is (Wrap ''dispatch'' (Sentinel ErrResolutionDepthExceeded)) ErrResolutionDepthExceeded
   \<and> Check
       (stub_collaborators (Inr example_typesystem)
          (Inl (Wrap ''dispatch'' (Sentinel ErrResolutionDepthExceeded))))
       example_server False example_request
     = Inl AuthorizationModelResolutionTooComplex"
proof -
  let ?err = "Wrap ''dispatch'' (Sentinel ErrResolutionDepthExceeded)"
  let ?env = "stub_collaborators (Inr example_typesystem) (Inl ?err)"
  have h1: "resolution_reached ?env False example_request example_typesystem"
    by (rule stub_reaches_resolution)
  have h2: "ResolveCheck ?env (check_context example_server example_typesystem example_request)
              (check_resolve_request example_server example_typesystem example_request) = Inl ?err"
    by (rule stub_ResolveCheck)
  have h3: "errors_Is ?err ErrResolutionDepthExceeded" by simp
  show ?thesis
    by (intro conjI h1 h3 check_depth_exceeded [OF h1 h2 h3])
qed









section \<open>Properties of the bounded reader\<close>

subsection \<open>Counting calls\<close>

lemma length_filter_update:
  "i < length xs \<Longrightarrow>
     length (filter P (xs[i := y])) + (if P (xs ! i) then 1 else 0)
       = length (filter P xs) + (if P y then 1 else 0)"
proof (induction xs arbitrary: i)
  case Nil
  then show ?case by simp
next
  case (Cons x xs)
  then show ?case by (cases i) auto
qed

lemma set_pc_fields [simp]:
  "limiter (set_pc i p s) = limiter s"
  "clock (set_pc i p s) = clock s"
  "histogram (set_pc i p s) = histogram s"
  "span_log (set_pc i p s) = span_log s"
  "wrapped_calls (set_pc i p s) = wrapped_calls s"
  "length (calls (set_pc i p s)) = length (calls s)"
  by (simp_all add: set_pc_def)

lemma set_pc_nth:
  "k < length (calls s) \<Longrightarrow>
     calls (set_pc i p s) ! k = (if k = i then (calls s ! i)\<lparr>c_pc := p\<rparr> else calls s ! k)"
  by (simp add: set_pc_def)

lemma set_pc_nth_pc [simp]: "i < length (calls s) \<Longrightarrow> c_pc (calls (set_pc i p s) ! i) = p"
  by (simp add: set_pc_def)

lemma select_effect_fields [simp]:
  "calls (select_effect c s) = calls s"
  "clock (select_effect c s) = clock s"
  "histogram (select_effect c s) = histogram s"
  "span_log (select_effect c s) = span_log s"
  "wrapped_calls (select_effect c s) = wrapped_calls s"
  "limiter (select_effect c s) = (if c = Sent then limiter s + 1 else limiter s)"
  by (cases c; simp add: select_effect_def)+

lemma record_wait_fields [simp]:
  "limiter (record_wait ctx start s) = limiter s"
  "calls (record_wait ctx start s) = calls s"
  "clock (record_wait ctx start s) = clock s"
  "wrapped_calls (record_wait ctx start s) = wrapped_calls s"
  by (simp_all add: record_wait_def Let_def)

lemma record_wait_logs:
  "histogram (record_wait ctx start s) = histogram s @
     [(Service (ctx_rpcInfo ctx), Method (ctx_rpcInfo ctx), Milliseconds (clock s - start))]"
  "span_log (record_wait ctx start s) = span_log s @
     [(ctx_span ctx, timeWaitingSpanAttribute, Milliseconds (clock s - start))]"
  by (simp_all add: record_wait_def Let_def)

lemma holders_updates [simp]:
  "holders (record_wait ctx start s) = holders s"
  "holders (select_effect c s) = holders s"
  "holders (s\<lparr>limiter := n\<rparr>) = holders s"
  "holders (s\<lparr>wrapped_calls := w\<rparr>) = holders s"
  "holders (s\<lparr>clock := t\<rparr>) = holders s"
  by (simp_all add: holders_def)

lemma passed_updates [simp]:
  "passed (record_wait ctx start s) = passed s"
  "passed (select_effect c s) = passed s"
  "passed (s\<lparr>limiter := n\<rparr>) = passed s"
  "passed (s\<lparr>wrapped_calls := w\<rparr>) = passed s"
  "passed (s\<lparr>clock := t\<rparr>) = passed s"
  by (simp_all add: passed_def)

lemma holders_set_pc:
  "i < length (calls s) \<Longrightarrow>
     holders (set_pc i p s) + (if holds_slot (calls s ! i) then 1 else 0)
       = holders s + (if p = Resolved Sent \<or> p = InWrapped \<or> is_AtRelease p then 1 else 0)"
  using length_filter_update [of i "calls s" holds_slot "(calls s ! i)\<lparr>c_pc := p\<rparr>"]
  by (simp add: holders_def set_pc_def)

lemma passed_set_pc:
  "i < length (calls s) \<Longrightarrow>
     passed (set_pc i p s) + (if left_waitForLimiter (c_pc (calls s ! i)) then 1 else 0)
       = passed s + (if left_waitForLimiter p then 1 else 0)"
  using length_filter_update [of i "calls s" past_select "(calls s ! i)\<lparr>c_pc := p\<rparr>"]
  by (simp add: passed_def set_pc_def past_select_def)

lemma holds_slot_Returned: "c_pc c = Returned r \<Longrightarrow> \<not> holds_slot c"
  by simp

lemma executing_le_holders: "executing s \<le> holders s"
proof -
  have "length (filter in_wrapped xs) \<le> length (filter holds_slot xs)" for xs
    by (induction xs) (auto simp: in_wrapped_def)
  then show ?thesis by (simp add: executing_def holders_def)
qed

subsection \<open>What each step does\<close>

lemma ctx_Err_Some: "ctx_done ctx = Some r \<Longrightarrow> ctx_Err ctx = Some (done_error r)"
  by (simp add: ctx_Err_def)

lemma step_Cancel:
  assumes "step b (Cancel i r) s = Some s'"
  shows "i < length (calls s)" and "ctx_done (c_ctx (calls s ! i)) = None"
    and "s' = s\<lparr>calls := (calls s)[i := cancel_call r (calls s ! i)]\<rparr>"
  using assms by (auto split: if_splits)

lemma step_Select:
  assumes "step b (Select i choice) s = Some s'"
  shows "i < length (calls s)" and "c_pc (calls s ! i) = AtSelect"
    and "(select_limiter b (c_ctx (calls s ! i)) choice s = None \<and> s' = set_pc i Parked s)
       \<or> (\<exists>c. select_limiter b (c_ctx (calls s ! i)) choice s = Some c
             \<and> s' = set_pc i (Resolved c) (select_effect c s))"
  using assms by (auto split: if_splits option.splits)

lemma select_limiter_Some:
  "select_limiter b ctx choice s = Some c \<Longrightarrow>
     (c = CtxDone \<and> ctx_done ctx \<noteq> None \<and> (\<not> limiter s < capacity b \<or> choice))
     \<or> (c = Sent \<and> limiter s < capacity b \<and> (ctx_done ctx = None \<or> \<not> choice))"
  by (auto simp: select_limiter_def Let_def split: if_splits)

lemma select_limiter_None:
  "(select_limiter b ctx choice s = None) = (ctx_done ctx = None \<and> \<not> limiter s < capacity b)"
  by (auto simp: select_limiter_def Let_def)

lemma select_limiter_done:
  "ctx_done ctx = Some r \<Longrightarrow>
     select_limiter b ctx choice s
       = Some (if limiter s < capacity b \<and> \<not> choice then Sent else CtxDone)"
  by (auto simp: select_limiter_def Let_def)

lemma step_Wake:
  assumes "step b (Wake i) s = Some s'"
  shows "i < length (calls s)" and "c_pc (calls s ! i) = Parked" and "limiter s < capacity b"
    and "s' = set_pc i (Resolved Sent) (select_effect Sent s)"
  using assms by (auto split: if_splits)

lemma step_Resume:
  assumes "step b (Resume i) s = Some s'"
  shows "i < length (calls s)"
    and "\<exists>c. c_pc (calls s ! i) = Resolved c
           \<and> s' = after_wait i
                    (waitForLimiter_return (c_ctx (calls s ! i)) (c_start (calls s ! i)) c s)"
  using assms by (auto split: if_splits pc.splits)

lemma Resume_Sent:
  assumes "i < length (calls s)" and "c_pc (calls s ! i) = Resolved Sent"
  shows "step b (Resume i) s =
    Some ((set_pc i InWrapped (record_wait (c_ctx (calls s ! i)) (c_start (calls s ! i)) s))
          \<lparr>wrapped_calls := wrapped_calls s @ [(i, c_method (calls s ! i))]\<rparr>)"
  using assms by (simp add: waitForLimiter_return_def after_wait_def)

lemma Resume_CtxDone:
  assumes "i < length (calls s)" and "c_pc (calls s ! i) = Resolved CtxDone"
    and "ctx_done (c_ctx (calls s ! i)) = Some r"
  shows "step b (Resume i) s =
    Some (set_pc i (Returned (Inl (done_error r)))
           (record_wait (c_ctx (calls s ! i)) (c_start (calls s ! i)) s))"
  using assms by (simp add: waitForLimiter_return_def after_wait_def ctx_Err_Some)

text \<open>
  A \<open>select\<close> that can proceed, followed at once by the rest of \<open>waitForLimiter\<close>, is
  \<open>waitForLimiter\<close> run in one piece; a \<open>select\<close> that cannot proceed parks the call.
\<close>

lemma waitForLimiter_by_steps:
  assumes "i < length (calls s)" and "c_pc (calls s ! i) = AtSelect"
    and "select_limiter b (c_ctx (calls s ! i)) choice s = Some c"
  shows "\<exists>s1. step b (Select i choice) s = Some s1
           \<and> step b (Resume i) s1 =
               map_option (after_wait i)
                 (waitForLimiter b (c_ctx (calls s ! i)) (c_start (calls s ! i)) choice s)"
  using assms
  by (cases c)
    (simp_all add: waitForLimiter_def waitForLimiter_return_def after_wait_def set_pc_def
      record_wait_def select_effect_def Let_def split: option.splits)

lemma waitForLimiter_parks:
  assumes "i < length (calls s)" and "c_pc (calls s ! i) = AtSelect"
    and "waitForLimiter b (c_ctx (calls s ! i)) (c_start (calls s ! i)) choice s = None"
  shows "step b (Select i choice) s = Some (set_pc i Parked s)"
  using assms by (simp add: waitForLimiter_def split: option.splits)

lemma step_WrappedReturns:
  assumes "step b (WrappedReturns i r) s = Some s'"
  shows "i < length (calls s)" and "c_pc (calls s ! i) = InWrapped"
    and "s' = set_pc i (AtRelease r) s"
  using assms by (auto split: if_splits)

lemma step_Release:
  assumes "step b (Release i) s = Some s'"
  shows "i < length (calls s)" and "0 < limiter s"
    and "\<exists>r. c_pc (calls s ! i) = AtRelease r
           \<and> s' = set_pc i (Returned r) (s\<lparr>limiter := limiter s - 1\<rparr>)"
  using assms by (auto split: if_splits pc.splits)

lemma step_Next:
  assumes "step b (Next i) s = Some s'"
  shows "i < length (calls s)"
    and "\<exists>r r'. c_pc (calls s ! i) = Returned r \<and> iterator_Next r = Some r'
           \<and> s' = set_pc i (Returned r') s"
  using assms by (auto split: if_splits pc.splits)

subsection \<open>The invariants along a run\<close>

lemma cancel_call_same [simp]:
  "holds_slot (cancel_call r c) = holds_slot c"
  "past_select (cancel_call r c) = past_select c"
  "context_ok (cancel_call r c)"
  "c_method (cancel_call r c) = c_method c"
  "c_start (cancel_call r c) = c_start c"
  "ctx_rpcInfo (c_ctx (cancel_call r c)) = ctx_rpcInfo (c_ctx c)"
  "ctx_span (c_ctx (cancel_call r c)) = ctx_span (c_ctx c)"
  "left_waitForLimiter (c_pc (cancel_call r c)) = left_waitForLimiter (c_pc c)"
  by (auto simp: cancel_call_def past_select_def context_ok_def)

lemma list_all_update: "list_all P xs \<Longrightarrow> P y \<Longrightarrow> list_all P (xs[i := y])"
proof (induction xs arbitrary: i)
  case Nil
  then show ?case by simp
next
  case (Cons x xs)
  then show ?case by (cases i) auto
qed

lemma context_inv_set_pc:
  assumes "context_inv s"
    and "p = Parked \<longrightarrow> ctx_done (c_ctx (calls s ! i)) = None"
    and "p = Resolved CtxDone \<longrightarrow> ctx_done (c_ctx (calls s ! i)) \<noteq> None"
  shows "context_inv (set_pc i p s)"
  using assms unfolding context_inv_def set_pc_def
  by (auto intro!: list_all_update simp: context_ok_def)

lemma context_inv_updates [simp]:
  "context_inv (record_wait ctx start s) = context_inv s"
  "context_inv (select_effect c s) = context_inv s"
  "context_inv (s\<lparr>limiter := n\<rparr>) = context_inv s"
  "context_inv (s\<lparr>wrapped_calls := w\<rparr>) = context_inv s"
  "context_inv (s\<lparr>clock := t\<rparr>) = context_inv s"
  by (simp_all add: context_inv_def)

lemma no_holder_at_capacity_0:
  assumes "limiter_inv b s" and "capacity b = 0" and "j < length (calls s)"
  shows "\<not> holds_slot (calls s ! j)"
proof
  assume h: "holds_slot (calls s ! j)"
  from assms(3) have "calls s ! j \<in> set (filter holds_slot (calls s))"
    using h by (simp del: holds_slot.simps)
  then have "0 < length (filter holds_slot (calls s))"
    by (metis length_pos_if_in_set)
  with assms(1,2) show False by (auto simp: limiter_inv_def holders_def)
qed

lemma step_Handoff_impossible:
  assumes "limiter_inv b s"
  shows "step b (Handoff i j) s = None"
proof (cases "i < length (calls s) \<and> j < length (calls s) \<and> capacity b = 0
               \<and> (c_pc (calls s ! i) = AtSelect \<or> c_pc (calls s ! i) = Parked)")
  case True
  then have "\<not> holds_slot (calls s ! j)"
    using no_holder_at_capacity_0 [OF assms] by blast
  then show ?thesis using True by (auto split: pc.splits)
next
  case False
  then show ?thesis by auto
qed

lemma after_wait_Sent:
  "after_wait i (waitForLimiter_return ctx start Sent s) =
     (set_pc i InWrapped (record_wait ctx start s))
       \<lparr>wrapped_calls := wrapped_calls s @ [(i, c_method (calls s ! i))]\<rparr>"
  by (simp add: after_wait_def waitForLimiter_return_def)

lemma after_wait_CtxDone:
  "ctx_done ctx = Some r \<Longrightarrow>
   after_wait i (waitForLimiter_return ctx start CtxDone s) =
     set_pc i (Returned (Inl (done_error r))) (record_wait ctx start s)"
  by (simp add: after_wait_def waitForLimiter_return_def ctx_Err_Some)

lemma context_inv_nth:
  "context_inv s \<Longrightarrow> i < length (calls s) \<Longrightarrow> context_ok (calls s ! i)"
  by (simp add: context_inv_def list_all_length)

text \<open>The limiter and the contexts.\<close>

lemma step_limiter_context:
  assumes "limiter_inv b s" and "context_inv s" and "step b e s = Some s'"
  shows "limiter_inv b s' \<and> context_inv s'"
proof (cases e)
  case (Invoke m ctx)
  with assms show ?thesis
    by (auto simp: limiter_inv_def context_inv_def holders_def context_ok_def)
next
  case (Elapse d)
  with assms show ?thesis by (auto simp: limiter_inv_def)
next
  case (Cancel i r)
  note c = step_Cancel [OF assms(3) [unfolded Cancel]]
  have "holders s' = holders s"
    using length_filter_update [of i "calls s" holds_slot "cancel_call r (calls s ! i)"] c(1)
    by (simp add: c(3) holders_def del: holds_slot.simps)
  moreover have "context_inv s'"
    using assms(2) by (simp add: c(3) context_inv_def list_all_update)
  ultimately show ?thesis using assms(1) by (simp add: limiter_inv_def c(3))
next
  case (Select i choice)
  note c = step_Select [OF assms(3) [unfolded Select]]
  from c(3) show ?thesis
  proof
    assume a: "select_limiter b (c_ctx (calls s ! i)) choice s = None \<and> s' = set_pc i Parked s"
    then have s': "s' = set_pc i Parked s" by blast
    from a have live: "ctx_done (c_ctx (calls s ! i)) = None"
      by (simp add: select_limiter_None)
    have "holders s' = holders s"
      using holders_set_pc [of i s Parked] c(1,2) by (simp add: s')
    moreover have "context_inv s'"
      unfolding s' using assms(2) live by (intro context_inv_set_pc) simp_all
    ultimately show ?thesis using assms(1) by (simp add: limiter_inv_def s')
  next
    assume "\<exists>c. select_limiter b (c_ctx (calls s ! i)) choice s = Some c
             \<and> s' = set_pc i (Resolved c) (select_effect c s)"
    then obtain k where sel: "select_limiter b (c_ctx (calls s ! i)) choice s = Some k"
      and s': "s' = set_pc i (Resolved k) (select_effect k s)" by blast
    have ctx: "context_inv s'"
      unfolding s' using assms(2) select_limiter_Some [OF sel]
      by (intro context_inv_set_pc) auto
    show ?thesis
    proof (cases k)
      case CtxDone
      have "holders s' = holders s"
        using holders_set_pc [of i "select_effect k s" "Resolved k"] c(1,2)
        by (simp add: s' CtxDone)
      then show ?thesis using assms(1) ctx by (simp add: limiter_inv_def s' CtxDone)
    next
      case Sent
      have "holders s' = holders s + 1"
        using holders_set_pc [of i "select_effect k s" "Resolved k"] c(1,2)
        by (simp add: s' Sent)
      moreover have "limiter s < capacity b"
        using select_limiter_Some [OF sel] Sent by simp
      ultimately show ?thesis using assms(1) ctx by (simp add: limiter_inv_def s' Sent)
    qed
  qed
next
  case (Wake i)
  note c = step_Wake [OF assms(3) [unfolded Wake]]
  have "holders s' = holders s + 1"
    using holders_set_pc [of i "select_effect Sent s" "Resolved Sent"] c(1,2)
    by (simp add: c(4))
  moreover have "context_inv s'"
    unfolding c(4) using assms(2) by (intro context_inv_set_pc) simp_all
  ultimately show ?thesis using assms(1) c(3) by (simp add: limiter_inv_def c(4))
next
  case (Resume i)
  note c = step_Resume [OF assms(3) [unfolded Resume]]
  let ?ctx = "c_ctx (calls s ! i)" and ?start = "c_start (calls s ! i)"
  from c(2) obtain k where pc: "c_pc (calls s ! i) = Resolved k"
    and s': "s' = after_wait i (waitForLimiter_return ?ctx ?start k s)" by blast
  show ?thesis
  proof (cases k)
    case Sent
    have s'': "s' = (set_pc i InWrapped (record_wait ?ctx ?start s))
                     \<lparr>wrapped_calls := wrapped_calls s @ [(i, c_method (calls s ! i))]\<rparr>"
      by (simp add: s' Sent after_wait_Sent)
    have "holders s' = holders s"
      using holders_set_pc [of i "record_wait ?ctx ?start s" InWrapped] c(1) pc
      by (simp add: s'' Sent)
    moreover have "context_inv s'"
      unfolding s'' using assms(2) by (simp add: context_inv_set_pc)
    ultimately show ?thesis using assms(1) by (simp add: limiter_inv_def s'')
  next
    case CtxDone
    have "ctx_done ?ctx \<noteq> None"
      using context_inv_nth [OF assms(2) c(1)] pc CtxDone by (simp add: context_ok_def)
    then obtain r where r: "ctx_done ?ctx = Some r" by blast
    have s'': "s' = set_pc i (Returned (Inl (done_error r))) (record_wait ?ctx ?start s)"
      by (simp add: s' CtxDone after_wait_CtxDone [OF r])
    have "holders s' = holders s"
      using holders_set_pc [of i "record_wait ?ctx ?start s" "Returned (Inl (done_error r))"] c(1) pc
      by (simp add: s'' CtxDone)
    moreover have "context_inv s'"
      unfolding s'' using assms(2) by (simp add: context_inv_set_pc)
    ultimately show ?thesis using assms(1) by (simp add: limiter_inv_def s'')
  qed
next
  case (Handoff i j)
  with assms show ?thesis using step_Handoff_impossible by simp
next
  case (WrappedReturns i r)
  note c = step_WrappedReturns [OF assms(3) [unfolded WrappedReturns]]
  have "holders s' = holders s"
    using holders_set_pc [of i s "AtRelease r"] c(1,2) by (simp add: c(3))
  moreover have "context_inv s'"
    unfolding c(3) using assms(2) by (simp add: context_inv_set_pc)
  ultimately show ?thesis using assms(1) by (simp add: limiter_inv_def c(3))
next
  case (Release i)
  note c = step_Release [OF assms(3) [unfolded Release]]
  from c(3) obtain r where pc: "c_pc (calls s ! i) = AtRelease r"
    and s': "s' = set_pc i (Returned r) (s\<lparr>limiter := limiter s - 1\<rparr>)" by blast
  have h: "holders s' + 1 = holders s"
    using holders_set_pc [of i "s\<lparr>limiter := limiter s - 1\<rparr>" "Returned r"] c(1) pc by (simp add: s')
  have l: "limiter s' = limiter s - 1" by (simp add: s')
  have "limiter_inv b s'"
    using assms(1) c(2) h l unfolding limiter_inv_def by linarith
  moreover have "context_inv s'"
    unfolding s' using assms(2) by (simp add: context_inv_set_pc)
  ultimately show ?thesis by blast
next
  case (Next i)
  note c = step_Next [OF assms(3) [unfolded Next]]
  from c(2) obtain r r' where pc: "c_pc (calls s ! i) = Returned r"
    and s': "s' = set_pc i (Returned r') s" by blast
  have "holders s' = holders s"
    using holders_set_pc [of i s "Returned r'"] c(1) pc by (simp add: s')
  moreover have "context_inv s'"
    unfolding s' using assms(2) by (simp add: context_inv_set_pc)
  ultimately show ?thesis using assms(1) by (simp add: limiter_inv_def s')
qed

lemma after_wait_cases:
  "(\<exists>err. after_wait i (waitForLimiter_return ctx start c s)
        = set_pc i (Returned (Inl err)) (record_wait ctx start s))
   \<or> after_wait i (waitForLimiter_return ctx start c s)
        = (set_pc i InWrapped (record_wait ctx start s))
            \<lparr>wrapped_calls := wrapped_calls s @ [(i, c_method (calls s ! i))]\<rparr>"
  by (cases "case c of CtxDone \<Rightarrow> ctx_Err ctx | Sent \<Rightarrow> None")
    (auto simp: after_wait_def waitForLimiter_return_def)

text \<open>What \<open>Resume\<close> writes and where it leaves the call.\<close>

lemma step_Resume_logs:
  assumes "step b (Resume i) s = Some s'"
  shows "histogram s' = histogram s @
           [(Service (ctx_rpcInfo (c_ctx (calls s ! i))), Method (ctx_rpcInfo (c_ctx (calls s ! i))),
             Milliseconds (clock s - c_start (calls s ! i)))]"
    and "span_log s' = span_log s @
           [(ctx_span (c_ctx (calls s ! i)), timeWaitingSpanAttribute,
             Milliseconds (clock s - c_start (calls s ! i)))]"
    and "c_pc (calls s' ! i) = InWrapped \<or> (\<exists>err. c_pc (calls s' ! i) = Returned (Inl err))"
    and "passed s' = passed s + 1"
proof -
  let ?ctx = "c_ctx (calls s ! i)" and ?start = "c_start (calls s ! i)"
  note c = step_Resume [OF assms]
  from c(2) obtain k where pc: "c_pc (calls s ! i) = Resolved k"
    and s': "s' = after_wait i (waitForLimiter_return ?ctx ?start k s)" by blast
  from after_wait_cases [of i ?ctx ?start k s]
  have cs: "(\<exists>err. s' = set_pc i (Returned (Inl err)) (record_wait ?ctx ?start s))
       \<or> s' = (set_pc i InWrapped (record_wait ?ctx ?start s))
               \<lparr>wrapped_calls := wrapped_calls s @ [(i, c_method (calls s ! i))]\<rparr>"
    by (simp add: s')
  from cs show "histogram s' = histogram s @
           [(Service (ctx_rpcInfo ?ctx), Method (ctx_rpcInfo ?ctx), Milliseconds (clock s - ?start))]"
    by (auto simp: record_wait_logs)
  from cs show "span_log s' = span_log s @
           [(ctx_span ?ctx, timeWaitingSpanAttribute, Milliseconds (clock s - ?start))]"
    by (auto simp: record_wait_logs)
  from cs c(1) show "c_pc (calls s' ! i) = InWrapped \<or> (\<exists>err. c_pc (calls s' ! i) = Returned (Inl err))"
    by (auto simp: set_pc_def)
  from cs show "passed s' = passed s + 1"
  proof
    assume "\<exists>err. s' = set_pc i (Returned (Inl err)) (record_wait ?ctx ?start s)"
    then obtain err where e: "s' = set_pc i (Returned (Inl err)) (record_wait ?ctx ?start s)"
      by blast
    show ?thesis
      using passed_set_pc [of i "record_wait ?ctx ?start s" "Returned (Inl err)"] c(1) pc
      by (simp add: e)
  next
    assume e: "s' = (set_pc i InWrapped (record_wait ?ctx ?start s))
               \<lparr>wrapped_calls := wrapped_calls s @ [(i, c_method (calls s ! i))]\<rparr>"
    show ?thesis
      using passed_set_pc [of i "record_wait ?ctx ?start s" InWrapped] c(1) pc
      by (simp add: e)
  qed
qed

lemma step_recorded:
  assumes "limiter_inv b s" and "recorded_inv s" and "step b e s = Some s'"
  shows "recorded_inv s'"
proof (cases e)
  case (Invoke m ctx)
  with assms show ?thesis by (auto simp: recorded_inv_def passed_def past_select_def)
next
  case (Elapse d)
  with assms show ?thesis by (auto simp: recorded_inv_def)
next
  case (Cancel i r)
  note c = step_Cancel [OF assms(3) [unfolded Cancel]]
  have "passed s' = passed s"
    using length_filter_update [of i "calls s" past_select "cancel_call r (calls s ! i)"] c(1)
    by (simp add: c(3) passed_def)
  with assms(2) show ?thesis by (simp add: recorded_inv_def c(3))
next
  case (Select i choice)
  note c = step_Select [OF assms(3) [unfolded Select]]
  from c(3) obtain p t where s': "s' = set_pc i p t" and p: "\<not> left_waitForLimiter p"
    and t: "passed t = passed s" "histogram t = histogram s" "span_log t = span_log s"
      "calls t = calls s"
    by (elim disjE exE conjE) (fastforce+)
  have "passed s' = passed s"
    using passed_set_pc [of i t p] c(1,2) p t by (simp add: s')
  with assms(2) t show ?thesis by (simp add: recorded_inv_def s')
next
  case (Wake i)
  note c = step_Wake [OF assms(3) [unfolded Wake]]
  have "passed s' = passed s"
    using passed_set_pc [of i "select_effect Sent s" "Resolved Sent"] c(1,2) by (simp add: c(4))
  with assms(2) show ?thesis by (simp add: recorded_inv_def c(4))
next
  case (Resume i)
  with assms(3) have st: "step b (Resume i) s = Some s'" by simp
  show ?thesis
    using assms(2) step_Resume_logs(1,2,4) [OF st] by (simp add: recorded_inv_def)
next
  case (Handoff i j)
  with assms show ?thesis using step_Handoff_impossible by simp
next
  case (WrappedReturns i r)
  note c = step_WrappedReturns [OF assms(3) [unfolded WrappedReturns]]
  have "passed s' = passed s"
    using passed_set_pc [of i s "AtRelease r"] c(1,2) by (simp add: c(3))
  with assms(2) show ?thesis by (simp add: recorded_inv_def c(3))
next
  case (Release i)
  note c = step_Release [OF assms(3) [unfolded Release]]
  from c(3) obtain r where pc: "c_pc (calls s ! i) = AtRelease r"
    and s': "s' = set_pc i (Returned r) (s\<lparr>limiter := limiter s - 1\<rparr>)" by blast
  have "passed s' = passed s"
    using passed_set_pc [of i "s\<lparr>limiter := limiter s - 1\<rparr>" "Returned r"] c(1) pc by (simp add: s')
  with assms(2) show ?thesis by (simp add: recorded_inv_def s')
next
  case (Next i)
  note c = step_Next [OF assms(3) [unfolded Next]]
  from c(2) obtain r r' where pc: "c_pc (calls s ! i) = Returned r"
    and s': "s' = set_pc i (Returned r') s" by blast
  have "passed s' = passed s"
    using passed_set_pc [of i s "Returned r'"] c(1) pc by (simp add: s')
  with assms(2) show ?thesis by (simp add: recorded_inv_def s')
qed

text \<open>
  No step takes a call back into \<open>waitForLimiter\<close>, and no step changes the method of a
  call, the time it entered, or the telemetry of its context.
\<close>

lemma same_call_refl [simp]: "same_call c c"
  by (simp add: same_call_def)

lemma same_call_trans: "same_call c c' \<Longrightarrow> same_call c' c'' \<Longrightarrow> same_call c c''"
  by (simp add: same_call_def)

lemma same_call_set_pc:
  assumes "k < length (calls s)"
    and "left_waitForLimiter (c_pc (calls s ! i)) \<longrightarrow> left_waitForLimiter p"
  shows "same_call (calls s ! k) (calls (set_pc i p s) ! k)"
  using assms by (simp add: set_pc_nth same_call_def)

lemma step_same_call:
  assumes "step b e s = Some s'" and "k < length (calls s)"
  shows "k < length (calls s') \<and> same_call (calls s ! k) (calls s' ! k)"
proof (cases e)
  case (Invoke m ctx)
  with assms show ?thesis by (auto simp: nth_append)
next
  case (Elapse d)
  with assms show ?thesis by auto
next
  case (Cancel i r)
  note c = step_Cancel [OF assms(1) [unfolded Cancel]]
  show ?thesis using assms(2) by (cases "k = i") (simp_all add: c(3) same_call_def)
next
  case (Select i choice)
  note c = step_Select [OF assms(1) [unfolded Select]]
  from c(3) obtain p t where s': "s' = set_pc i p t" and t: "calls t = calls s" by fastforce
  show ?thesis
    using same_call_set_pc [of k t i p] assms(2) c(2) t by (simp add: s')
next
  case (Wake i)
  note c = step_Wake [OF assms(1) [unfolded Wake]]
  show ?thesis
    using same_call_set_pc [of k "select_effect Sent s" i "Resolved Sent"] assms(2) c(2)
    by (simp add: c(4))
next
  case (Resume i)
  note c = step_Resume [OF assms(1) [unfolded Resume]]
  let ?ctx = "c_ctx (calls s ! i)" and ?start = "c_start (calls s ! i)"
  from c(2) obtain x where pc: "c_pc (calls s ! i) = Resolved x"
    and s': "s' = after_wait i (waitForLimiter_return ?ctx ?start x s)" by blast
  from after_wait_cases [of i ?ctx ?start x s]
  have "(\<exists>err. s' = set_pc i (Returned (Inl err)) (record_wait ?ctx ?start s))
       \<or> s' = (set_pc i InWrapped (record_wait ?ctx ?start s))
               \<lparr>wrapped_calls := wrapped_calls s @ [(i, c_method (calls s ! i))]\<rparr>"
    by (simp add: s')
  then show ?thesis
  proof
    assume "\<exists>err. s' = set_pc i (Returned (Inl err)) (record_wait ?ctx ?start s)"
    then obtain err where e: "s' = set_pc i (Returned (Inl err)) (record_wait ?ctx ?start s)"
      by blast
    show ?thesis
      using same_call_set_pc [of k "record_wait ?ctx ?start s" i "Returned (Inl err)"] assms(2) pc
      by (simp add: e)
  next
    assume e: "s' = (set_pc i InWrapped (record_wait ?ctx ?start s))
               \<lparr>wrapped_calls := wrapped_calls s @ [(i, c_method (calls s ! i))]\<rparr>"
    show ?thesis
      using same_call_set_pc [of k "record_wait ?ctx ?start s" i InWrapped] assms(2) pc
      by (simp add: e)
  qed
next
  case (Handoff i j)
  with assms(1) obtain r where i: "c_pc (calls s ! i) = AtSelect \<or> c_pc (calls s ! i) = Parked"
    and j: "c_pc (calls s ! j) = AtRelease r"
    and s': "s' = set_pc j (Returned r) (set_pc i (Resolved Sent) s)"
    by (auto split: if_splits pc.splits)
  have 1: "same_call (calls s ! k) (calls (set_pc i (Resolved Sent) s) ! k)"
    using same_call_set_pc [of k s i "Resolved Sent"] assms(2) i by auto
  have 2: "same_call (calls (set_pc i (Resolved Sent) s) ! k) (calls s' ! k)"
    unfolding s'
    using same_call_set_pc [of k "set_pc i (Resolved Sent) s" j "Returned r"] assms(2) by simp
  show ?thesis using same_call_trans [OF 1 2] assms(2) by (simp add: s')
next
  case (WrappedReturns i r)
  note c = step_WrappedReturns [OF assms(1) [unfolded WrappedReturns]]
  show ?thesis
    using same_call_set_pc [of k s i "AtRelease r"] assms(2) by (simp add: c(3))
next
  case (Release i)
  note c = step_Release [OF assms(1) [unfolded Release]]
  from c(3) obtain r where s': "s' = set_pc i (Returned r) (s\<lparr>limiter := limiter s - 1\<rparr>)"
    by blast
  show ?thesis
    using same_call_set_pc [of k "s\<lparr>limiter := limiter s - 1\<rparr>" i "Returned r"] assms(2)
    by (simp add: s')
next
  case (Next i)
  note c = step_Next [OF assms(1) [unfolded Next]]
  from c(2) obtain r' where s': "s' = set_pc i (Returned r') s" by blast
  show ?thesis
    using same_call_set_pc [of k s i "Returned r'"] assms(2) by (simp add: s')
qed

lemma run_same_call:
  "run b es s = Some s' \<Longrightarrow> k < length (calls s)
     \<Longrightarrow> k < length (calls s') \<and> same_call (calls s ! k) (calls s' ! k)"
proof (induction es arbitrary: s)
  case Nil
  then show ?case by simp
next
  case (Cons e es)
  from Cons.prems(1) obtain s1 where e: "step b e s = Some s1" and r: "run b es s1 = Some s'"
    by (auto split: option.splits)
  from step_same_call [OF e Cons.prems(2)]
  have k1: "k < length (calls s1)" and c1: "same_call (calls s ! k) (calls s1 ! k)" by blast+
  from Cons.IH [OF r k1] show ?case using c1 same_call_trans by blast
qed

lemma step_wrapped_calls:
  assumes "step b e s = Some s'"
  shows "wrapped_calls s' = wrapped_calls s
     \<or> (\<exists>i. e = Resume i \<and> i < length (calls s) \<and> c_pc (calls s' ! i) = InWrapped
           \<and> wrapped_calls s' = wrapped_calls s @ [(i, c_method (calls s ! i))])"
proof (cases e)
  case (Resume i)
  note c = step_Resume [OF assms [unfolded Resume]]
  let ?ctx = "c_ctx (calls s ! i)" and ?start = "c_start (calls s ! i)"
  from c(2) obtain x where s': "s' = after_wait i (waitForLimiter_return ?ctx ?start x s)"
    by blast
  from after_wait_cases [of i ?ctx ?start x s] c(1) show ?thesis
    by (auto simp: s' Resume)
next
  case (Select i choice)
  from step_Select(3) [OF assms [unfolded Select]] show ?thesis by auto
next
  case (Handoff i j)
  with assms show ?thesis by (auto split: if_splits pc.splits)
next
  case (Release i)
  from step_Release(3) [OF assms [unfolded Release]] show ?thesis by auto
next
  case (Next i)
  from step_Next(2) [OF assms [unfolded Next]] show ?thesis by auto
qed (use assms in \<open>auto split: if_splits\<close>)

lemma step_invoked_inv:
  assumes "invoked_inv s" and "step b e s = Some s'"
  shows "invoked_inv s'"
proof -
  have old: "list_all (\<lambda>(k, m). k < length (calls s') \<and> left_waitForLimiter (c_pc (calls s' ! k)))
               (wrapped_calls s)"
    unfolding list_all_iff
  proof (clarify)
    fix k m assume "(k, m) \<in> set (wrapped_calls s)"
    with assms(1) have k: "k < length (calls s)" and l: "left_waitForLimiter (c_pc (calls s ! k))"
      by (auto simp: invoked_inv_def list_all_iff)
    from step_same_call [OF assms(2) k] l
    show "k < length (calls s') \<and> left_waitForLimiter (c_pc (calls s' ! k))"
      by (simp add: same_call_def)
  qed
  from step_wrapped_calls [OF assms(2)] show ?thesis
  proof
    assume "wrapped_calls s' = wrapped_calls s"
    with old show ?thesis by (simp add: invoked_inv_def)
  next
    assume "\<exists>i. e = Resume i \<and> i < length (calls s) \<and> c_pc (calls s' ! i) = InWrapped
           \<and> wrapped_calls s' = wrapped_calls s @ [(i, c_method (calls s ! i))]"
    then obtain i where i: "i < length (calls s)" and pc: "c_pc (calls s' ! i) = InWrapped"
      and w: "wrapped_calls s' = wrapped_calls s @ [(i, c_method (calls s ! i))]" by blast
    from step_same_call [OF assms(2) i] have "i < length (calls s')" by blast
    with old pc show ?thesis by (simp add: invoked_inv_def w)
  qed
qed

text \<open>All four invariants, along every run from the initial state.\<close>

lemma step_invariants:
  assumes "reader_inv b s" and "step b e s = Some s'"
  shows "reader_inv b s'"
  using assms step_limiter_context [of b s e s'] step_recorded [of b s e s']
    step_invoked_inv [of s b e s']
  by (simp add: reader_inv_def)

lemma run_invariants:
  "reader_inv b s \<Longrightarrow> run b es s = Some s' \<Longrightarrow> reader_inv b s'"
proof (induction es arbitrary: s)
  case Nil
  then show ?case by simp
next
  case (Cons e es)
  from Cons.prems(2) obtain s1 where e: "step b e s = Some s1" and r: "run b es s1 = Some s'"
    by (auto split: option.splits)
  from Cons.IH [OF step_invariants [OF Cons.prems(1) e] r] show ?case .
qed

lemma init_invariants: "reader_inv b (init_state now)"
  by (simp add: reader_inv_def limiter_inv_def recorded_inv_def context_inv_def invoked_inv_def
      init_state_def holders_def passed_def)

lemma reachable_invariants:
  assumes "run b es (init_state now) = Some s"
  shows "limiter_inv b s" and "context_inv s" and "recorded_inv s" and "invoked_inv s"
  using run_invariants [OF init_invariants assms] by (simp_all add: reader_inv_def)

lemma not_invoked_in_waitForLimiter:
  assumes "invoked_inv s" and "\<not> left_waitForLimiter (c_pc (calls s ! i))"
  shows "\<not> invoked s i"
  using assms by (auto simp: invoked_inv_def invoked_def list_all_iff list_ex_iff)

subsection \<open>A wait ended by the context\<close>

lemma set_pc_other: "j \<noteq> i \<Longrightarrow> i < length (calls s) \<Longrightarrow> calls (set_pc j p s) ! i = calls s ! i"
  by (simp add: set_pc_nth)

lemma invoked_append:
  "invoked (s\<lparr>wrapped_calls := wrapped_calls s @ [(j, m)]\<rparr>) i = (invoked s i \<or> j = i)"
  by (auto simp: invoked_def)

lemma invoked_same:
  "wrapped_calls s' = wrapped_calls s \<Longrightarrow> invoked s' i = invoked s i"
  by (simp add: invoked_def)

lemma step_aborted:
  assumes "step b e s = Some s'" and "i < length (calls s)"
    and "aborted r (calls s ! i)" and "\<not> invoked s i"
  shows "aborted r (calls s' ! i) \<and> \<not> invoked s' i"
proof -
  from assms(3) have dn: "ctx_done (c_ctx (calls s ! i)) = Some r"
    and pc: "c_pc (calls s ! i) = Resolved CtxDone \<or> c_pc (calls s ! i) = Returned (Inl (done_error r))"
    by (simp_all add: aborted_def)
  show ?thesis
  proof (cases e)
    case (Invoke m ctx)
    with assms show ?thesis by (auto simp: nth_append invoked_def)
  next
    case (Elapse d)
    with assms show ?thesis by (auto simp: invoked_def)
  next
    case (Cancel j x)
    note c = step_Cancel [OF assms(1) [unfolded Cancel]]
    from c(2) dn have "j \<noteq> i" by auto
    then show ?thesis using assms(2,3,4) by (simp add: c(3) invoked_def)
  next
    case (Select j choice)
    note c = step_Select [OF assms(1) [unfolded Select]]
    from c(2) pc have ne: "j \<noteq> i" by auto
    from c(3) obtain p t where s': "s' = set_pc j p t" and t: "calls t = calls s"
      "wrapped_calls t = wrapped_calls s" by fastforce
    show ?thesis
      using set_pc_other [OF ne, of t p] assms(2,3,4) t by (simp add: s' invoked_def)
  next
    case (Wake j)
    note c = step_Wake [OF assms(1) [unfolded Wake]]
    from c(2) pc have ne: "j \<noteq> i" by auto
    show ?thesis
      using set_pc_other [OF ne, of "select_effect Sent s" "Resolved Sent"] assms(2,3,4)
      by (simp add: c(4) invoked_def)
  next
    case (Resume j)
    note c = step_Resume [OF assms(1) [unfolded Resume]]
    let ?ctx = "c_ctx (calls s ! j)" and ?start = "c_start (calls s ! j)"
    from c(2) obtain x where pcj: "c_pc (calls s ! j) = Resolved x"
      and s': "s' = after_wait j (waitForLimiter_return ?ctx ?start x s)" by blast
    show ?thesis
    proof (cases "j = i")
      case True
      with pc pcj have x: "x = CtxDone" by auto
      have s'': "s' = set_pc i (Returned (Inl (done_error r)))
                        (record_wait (c_ctx (calls s ! i)) (c_start (calls s ! i)) s)"
        using after_wait_CtxDone [OF dn] by (simp add: s' x True)
      show ?thesis
        using assms(2,4) dn by (simp add: s'' aborted_def invoked_def set_pc_def)
    next
      case False
      from after_wait_cases [of j ?ctx ?start x s]
      have "(\<exists>err. s' = set_pc j (Returned (Inl err)) (record_wait ?ctx ?start s))
          \<or> s' = (set_pc j InWrapped (record_wait ?ctx ?start s))
               \<lparr>wrapped_calls := wrapped_calls s @ [(j, c_method (calls s ! j))]\<rparr>"
        by (simp add: s')
      then show ?thesis
      proof
        assume "\<exists>err. s' = set_pc j (Returned (Inl err)) (record_wait ?ctx ?start s)"
        then obtain err where e: "s' = set_pc j (Returned (Inl err)) (record_wait ?ctx ?start s)"
          by blast
        show ?thesis
          using set_pc_other [OF False, of "record_wait ?ctx ?start s" "Returned (Inl err)"]
            assms(2,3,4)
          by (simp add: e invoked_def)
      next
        assume e: "s' = (set_pc j InWrapped (record_wait ?ctx ?start s))
               \<lparr>wrapped_calls := wrapped_calls s @ [(j, c_method (calls s ! j))]\<rparr>"
        show ?thesis
          using set_pc_other [OF False, of "record_wait ?ctx ?start s" InWrapped]
            assms(2,3,4) False
          by (simp add: e invoked_def)
      qed
    qed
  next
    case (Handoff j k)
    with assms(1) obtain x where j: "c_pc (calls s ! j) = AtSelect \<or> c_pc (calls s ! j) = Parked"
      and k: "c_pc (calls s ! k) = AtRelease x"
      and s': "s' = set_pc k (Returned x) (set_pc j (Resolved Sent) s)"
      by (auto split: if_splits pc.splits)
    from j k pc have ne: "j \<noteq> i" "k \<noteq> i" by auto
    show ?thesis
      using set_pc_other [OF ne(1), of s "Resolved Sent"]
        set_pc_other [OF ne(2), of "set_pc j (Resolved Sent) s" "Returned x"] assms(2,3,4)
      by (simp add: s' invoked_def)
  next
    case (WrappedReturns j x)
    note c = step_WrappedReturns [OF assms(1) [unfolded WrappedReturns]]
    from c(2) pc have ne: "j \<noteq> i" by auto
    show ?thesis
      using set_pc_other [OF ne, of s "AtRelease x"] assms(2,3,4) by (simp add: c(3) invoked_def)
  next
    case (Release j)
    note c = step_Release [OF assms(1) [unfolded Release]]
    from c(3) obtain x where pcj: "c_pc (calls s ! j) = AtRelease x"
      and s': "s' = set_pc j (Returned x) (s\<lparr>limiter := limiter s - 1\<rparr>)" by blast
    from pcj pc have ne: "j \<noteq> i" by auto
    show ?thesis
      using set_pc_other [OF ne, of "s\<lparr>limiter := limiter s - 1\<rparr>" "Returned x"] assms(2,3,4)
      by (simp add: s' invoked_def)
  next
    case (Next j)
    note c = step_Next [OF assms(1) [unfolded Next]]
    from c(2) obtain x x' where pcj: "c_pc (calls s ! j) = Returned x"
      and it: "iterator_Next x = Some x'" and s': "s' = set_pc j (Returned x') s" by blast
    from pcj it pc have ne: "j \<noteq> i" by auto
    show ?thesis
      using set_pc_other [OF ne, of s "Returned x'"] assms(2,3,4) by (simp add: s' invoked_def)
  qed
qed

lemma run_aborted:
  "run b es s = Some s' \<Longrightarrow> i < length (calls s) \<Longrightarrow> aborted r (calls s ! i)
     \<Longrightarrow> \<not> invoked s i
     \<Longrightarrow> i < length (calls s') \<and> aborted r (calls s' ! i) \<and> \<not> invoked s' i"
proof (induction es arbitrary: s)
  case Nil
  then show ?case by simp
next
  case (Cons e es)
  from Cons.prems(1) obtain s1 where e: "step b e s = Some s1" and r: "run b es s1 = Some s'"
    by (auto split: option.splits)
  from step_same_call [OF e Cons.prems(2)] have i1: "i < length (calls s1)" by blast
  from step_aborted [OF e Cons.prems(2,3,4)]
  have "aborted r (calls s1 ! i)" and "\<not> invoked s1 i" by blast+
  with Cons.IH [OF r i1] show ?case by blast
qed

lemmas reader_eval =
  select_limiter_def select_effect_def waitForLimiter_return_def record_wait_def after_wait_def
  set_pc_def cancel_call_def init_state_def NewBoundedConcurrencyTupleReader_def
  Milliseconds_def ctx_Err_def done_error_def timeWaitingSpanAttribute_def
  example_context_def Let_def

subsection \<open>The claims\<close>

text \<open>
  Claim C1: in every state that the calls of a reader of limit \<open>n\<close> can reach, whatever
  their number, methods and interleaving, at most \<open>n\<close> calls are inside the wrapped
  reader; each of them holds a slot of the limiter, taken before the wrapped reader was
  invoked and given back by the deferred receive, and the slots held are the items in the
  channel, at most \<open>n\<close>.
\<close>

theorem bounded_concurrency:
  assumes "run (NewBoundedConcurrencyTupleReader n) es (init_state now) = Some s"
  shows "executing s \<le> unat n \<and> executing s \<le> holders s
       \<and> holders s = limiter s \<and> limiter s \<le> unat n"
proof -
  have "limiter_inv (NewBoundedConcurrencyTupleReader n) s"
    using reachable_invariants(1) [OF assms] .
  then show ?thesis
    using executing_le_holders [of s]
    by (simp add: limiter_inv_def NewBoundedConcurrencyTupleReader_def)
qed

theorem bounded_concurrency_witness:
  "\<exists>s. run (NewBoundedConcurrencyTupleReader 1)
          [Invoke Read (example_context 1 None), Invoke ReadUserTuple (example_context 1 None),
           Select 0 False, Resume 0, Select (Suc 0) False,
           WrappedReturns 0 (Inr (IteratorValue [example_tuple])),
           Release 0, Wake (Suc 0), Resume (Suc 0)]
          (init_state 0) = Some s
     \<and> executing s = 1 \<and> executing s \<le> unat (1 :: 32 word) \<and> limiter s \<le> unat (1 :: 32 word)"
proof -
  have "\<exists>s. run (NewBoundedConcurrencyTupleReader 1)
          [Invoke Read (example_context 1 None), Invoke ReadUserTuple (example_context 1 None),
           Select 0 False, Resume 0, Select (Suc 0) False,
           WrappedReturns 0 (Inr (IteratorValue [example_tuple])),
           Release 0, Wake (Suc 0), Resume (Suc 0)]
          (init_state 0) = Some s \<and> executing s = 1"
    by (simp add: reader_eval executing_def in_wrapped_def)
  then obtain s where r: "run (NewBoundedConcurrencyTupleReader 1)
          [Invoke Read (example_context 1 None), Invoke ReadUserTuple (example_context 1 None),
           Select 0 False, Resume 0, Select (Suc 0) False,
           WrappedReturns 0 (Inr (IteratorValue [example_tuple])),
           Release 0, Wake (Suc 0), Resume (Suc 0)]
          (init_state 0) = Some s" and e: "executing s = 1" by blast
  from bounded_concurrency [OF r] r e show ?thesis by blast
qed

text \<open>
  Claim C6: a call that is parked in the \<open>select\<close> (no slot was free and its context was
  live) is taken out of it by the cancellation of its context, and nothing that happens
  afterwards, be it a slot that becomes free, admits it: in every later state the call
  either is about to return the context's error, and can do so, or has returned it; the
  wrapped reader has not been invoked for it; it holds no slot, and the slots held are
  the items in the channel, within the capacity.
\<close>

theorem cancelled_waiter_aborts:
  assumes "run b es (init_state now) = Some s"
    and "i < length (calls s)" and "c_pc (calls s ! i) = Parked"
    and "step b (Cancel i r) s = Some s1"
    and "run b es' s1 = Some t"
  shows "i < length (calls t)
     \<and> (c_pc (calls t ! i) = Resolved CtxDone \<or> c_pc (calls t ! i) = Returned (Inl (done_error r)))
     \<and> \<not> invoked t i
     \<and> \<not> holds_slot (calls t ! i)
     \<and> holders t = limiter t \<and> limiter t \<le> capacity b
     \<and> (c_pc (calls t ! i) = Resolved CtxDone \<longrightarrow>
          (\<exists>t'. step b (Resume i) t = Some t'
             \<and> c_pc (calls t' ! i) = Returned (Inl (done_error r))
             \<and> wrapped_calls t' = wrapped_calls t
             \<and> limiter t' = limiter t \<and> holders t' = holders t))"
proof -
  note inv = reachable_invariants [OF assms(1)]
  have ni: "\<not> invoked s i"
    using not_invoked_in_waitForLimiter [OF inv(4)] assms(3) by simp
  note c = step_Cancel [OF assms(4)]
  have i1: "i < length (calls s1)" using assms(2) by (simp add: c(3))
  have a1: "aborted r (calls s1 ! i)"
    using assms(2,3) by (simp add: c(3) aborted_def cancel_call_def)
  have n1: "\<not> invoked s1 i" using ni by (simp add: c(3) invoked_def)
  from run_aborted [OF assms(5) i1 a1 n1]
  have it: "i < length (calls t)" and at: "aborted r (calls t ! i)" and nt: "\<not> invoked t i"
    by blast+
  from at have dn: "ctx_done (c_ctx (calls t ! i)) = Some r"
    and pc: "c_pc (calls t ! i) = Resolved CtxDone \<or> c_pc (calls t ! i) = Returned (Inl (done_error r))"
    by (simp_all add: aborted_def)
  have rt: "reader_inv b t"
    using run_invariants [OF step_invariants [OF _ assms(4)] assms(5)] inv
    by (simp add: reader_inv_def)
  then have lt: "holders t = limiter t" "limiter t \<le> capacity b"
    by (simp_all add: reader_inv_def limiter_inv_def)
  have nh: "\<not> holds_slot (calls t ! i)" using pc by auto
  have res: "\<exists>t'. step b (Resume i) t = Some t'
             \<and> c_pc (calls t' ! i) = Returned (Inl (done_error r))
             \<and> wrapped_calls t' = wrapped_calls t
             \<and> limiter t' = limiter t \<and> holders t' = holders t"
    if p: "c_pc (calls t ! i) = Resolved CtxDone"
  proof -
    let ?t' = "set_pc i (Returned (Inl (done_error r)))
                 (record_wait (c_ctx (calls t ! i)) (c_start (calls t ! i)) t)"
    have st: "step b (Resume i) t = Some ?t'" by (rule Resume_CtxDone [OF it p dn])
    have "holders ?t' = holders t"
      using holders_set_pc [of i "record_wait (c_ctx (calls t ! i)) (c_start (calls t ! i)) t"
          "Returned (Inl (done_error r))"] it p
      by simp
    with st it show ?thesis by simp
  qed
  from it pc nt nh lt res show ?thesis by blast
qed

theorem cancelled_waiter_aborts_witness:
  "\<exists>s s1 t t'.
     run (NewBoundedConcurrencyTupleReader 1)
       [Invoke Read (example_context 1 None), Select 0 False, Resume 0,
        Invoke ReadUserTuple (example_context 2 None), Select (Suc 0) False, Elapse 3000000]
       (init_state 0) = Some s
     \<and> Suc 0 < length (calls s) \<and> c_pc (calls s ! Suc 0) = Parked
     \<and> step (NewBoundedConcurrencyTupleReader 1) (Cancel (Suc 0) ByDeadline) s = Some s1
     \<and> run (NewBoundedConcurrencyTupleReader 1)
         [WrappedReturns 0 (Inr (IteratorValue [example_tuple])), Release 0] s1 = Some t
     \<and> limiter t = 0
     \<and> c_pc (calls t ! Suc 0) = Resolved CtxDone
     \<and> \<not> invoked t (Suc 0)
     \<and> step (NewBoundedConcurrencyTupleReader 1) (Resume (Suc 0)) t = Some t'
     \<and> c_pc (calls t' ! Suc 0) = Returned (Inl (Sentinel DeadlineExceeded))
     \<and> wrapped_calls t' = [(0, Read)]"
proof -
  let ?b = "NewBoundedConcurrencyTupleReader 1"
  let ?es = "[Invoke Read (example_context 1 None), Select 0 False, Resume 0,
        Invoke ReadUserTuple (example_context 2 None), Select (Suc 0) False, Elapse 3000000]"
  let ?es' = "[WrappedReturns 0 (Inr (IteratorValue [example_tuple])), Release 0]"
  have "\<exists>s. run ?b ?es (init_state 0) = Some s
     \<and> Suc 0 < length (calls s) \<and> c_pc (calls s ! Suc 0) = Parked
     \<and> (\<exists>s1. step ?b (Cancel (Suc 0) ByDeadline) s = Some s1
           \<and> (\<exists>t. run ?b ?es' s1 = Some t \<and> limiter t = 0
                 \<and> c_pc (calls t ! Suc 0) = Resolved CtxDone
                 \<and> wrapped_calls t = [(0, Read)]))"
    by (simp add: reader_eval)
  then obtain s s1 t where r: "run ?b ?es (init_state 0) = Some s"
    and i: "Suc 0 < length (calls s)" and pc: "c_pc (calls s ! Suc 0) = Parked"
    and cancel: "step ?b (Cancel (Suc 0) ByDeadline) s = Some s1"
    and r': "run ?b ?es' s1 = Some t" and l: "limiter t = 0"
    and pct: "c_pc (calls t ! Suc 0) = Resolved CtxDone"
    and w: "wrapped_calls t = [(0, Read)]"
    by blast
  from cancelled_waiter_aborts [OF r i pc cancel r'] pct
  obtain t' where "\<not> invoked t (Suc 0)" and "step ?b (Resume (Suc 0)) t = Some t'"
    and "c_pc (calls t' ! Suc 0) = Returned (Inl (done_error ByDeadline))"
    and "wrapped_calls t' = wrapped_calls t"
    by blast
  with r i pc cancel r' l pct w show ?thesis
    by (auto simp: done_error_def)
qed

text \<open>
  Claim C10: when the wrapped reader has handed a call of \<open>Read\<close>, \<open>ReadUsersetTuples\<close>
  or \<open>ReadStartingWithUser\<close> its iterator, the deferred receive can always be taken; it
  gives the slot back as the method returns the iterator, with every tuple still in it.
  The caller can take tuples from the iterator only after that, and taking them needs no
  slot: the bound covers issuing the read, not consuming its result.
\<close>

theorem slot_released_on_return:
  assumes "run b es (init_state now) = Some s"
    and "i < length (calls s)"
    and "c_method (calls s ! i) = Read \<or> c_method (calls s ! i) = ReadUsersetTuples
           \<or> c_method (calls s ! i) = ReadStartingWithUser"
    and "c_pc (calls s ! i) = AtRelease (Inr (IteratorValue ts))"
  shows "\<exists>s'. step b (Release i) s = Some s'
     \<and> c_pc (calls s' ! i) = Returned (Inr (IteratorValue ts))
     \<and> \<not> holds_slot (calls s' ! i)
     \<and> limiter s' + 1 = limiter s
     \<and> holders s' = limiter s'
     \<and> step b (Next i) s = None
     \<and> step b (Next i) s' =
         (case ts of [] \<Rightarrow> None
          | t # ts' \<Rightarrow> Some (set_pc i (Returned (Inr (IteratorValue ts'))) s'))"
proof -
  have inv: "reader_inv b s" using run_invariants [OF init_invariants assms(1)] .
  then have li: "limiter_inv b s" by (simp add: reader_inv_def)
  have "calls s ! i \<in> set (filter holds_slot (calls s))"
    using assms(2,4) by simp
  then have "0 < holders s" unfolding holders_def by (metis length_pos_if_in_set)
  with li have pos: "0 < limiter s" by (simp add: limiter_inv_def)
  define s' where "s' = set_pc i (Returned (Inr (IteratorValue ts))) (s\<lparr>limiter := limiter s - 1\<rparr>)"
  have st: "step b (Release i) s = Some s'"
    using assms(2,4) pos by (simp add: s'_def)
  have i': "i < length (calls s')" using assms(2) by (simp add: s'_def)
  have pc': "c_pc (calls s' ! i) = Returned (Inr (IteratorValue ts))"
    using assms(2) by (simp add: s'_def)
  have inv': "limiter_inv b s'"
    using step_invariants [OF inv st] by (simp add: reader_inv_def)
  have lim: "limiter s' + 1 = limiter s" using pos by (simp add: s'_def)
  have before: "step b (Next i) s = None" using assms(2,4) by simp
  have after: "step b (Next i) s' =
         (case ts of [] \<Rightarrow> None
          | t # ts' \<Rightarrow> Some (set_pc i (Returned (Inr (IteratorValue ts'))) s'))"
    using i' pc' by (cases ts) simp_all
  from st pc' inv' lim before after show ?thesis
    using holds_slot_Returned [OF pc'] by (auto simp: limiter_inv_def)
qed

theorem slot_released_on_return_witness:
  "\<exists>s s' s''.
     run (NewBoundedConcurrencyTupleReader 1)
       [Invoke Read (example_context 1 None), Select 0 False, Resume 0,
        WrappedReturns 0 (Inr (IteratorValue [example_tuple]))]
       (init_state 0) = Some s
     \<and> 0 < length (calls s) \<and> c_method (calls s ! 0) = Read
     \<and> c_pc (calls s ! 0) = AtRelease (Inr (IteratorValue [example_tuple]))
     \<and> limiter s = 1
     \<and> step (NewBoundedConcurrencyTupleReader 1) (Release 0) s = Some s'
     \<and> c_pc (calls s' ! 0) = Returned (Inr (IteratorValue [example_tuple]))
     \<and> limiter s' = 0
     \<and> step (NewBoundedConcurrencyTupleReader 1) (Next 0) s' = Some s''
     \<and> limiter s'' = 0"
proof -
  let ?b = "NewBoundedConcurrencyTupleReader 1"
  let ?es = "[Invoke Read (example_context 1 None), Select 0 False, Resume 0,
        WrappedReturns 0 (Inr (IteratorValue [example_tuple]))]"
  have "\<exists>s. run ?b ?es (init_state 0) = Some s
     \<and> 0 < length (calls s) \<and> c_method (calls s ! 0) = Read
     \<and> c_pc (calls s ! 0) = AtRelease (Inr (IteratorValue [example_tuple]))
     \<and> limiter s = 1"
    by (simp add: reader_eval)
  then obtain s where r: "run ?b ?es (init_state 0) = Some s"
    and i: "0 < length (calls s)" and m: "c_method (calls s ! 0) = Read"
    and pc: "c_pc (calls s ! 0) = AtRelease (Inr (IteratorValue [example_tuple]))"
    and l: "limiter s = 1"
    by blast
  from m have m': "c_method (calls s ! 0) = Read \<or> c_method (calls s ! 0) = ReadUsersetTuples
           \<or> c_method (calls s ! 0) = ReadStartingWithUser" by blast
  from slot_released_on_return [OF r i m' pc]
  obtain s' where st: "step ?b (Release 0) s = Some s'"
    and pc': "c_pc (calls s' ! 0) = Returned (Inr (IteratorValue [example_tuple]))"
    and l': "limiter s' + 1 = limiter s"
    and n: "step ?b (Next 0) s' = Some (set_pc 0 (Returned (Inr (IteratorValue []))) s')"
    by auto
  from l l' have l0: "limiter s' = 0" by simp
  have "limiter (set_pc 0 (Returned (Inr (IteratorValue []))) s') = 0"
    using l0 by simp
  with r i m pc l st pc' l0 n show ?thesis by blast
qed

text \<open>
  Claim C7, as the code has it: nothing tests the context before the \<open>select\<close>, which
  offers the case on \<open>ctx.Done()\<close> and the send together. A call whose context is
  already cancelled or past its deadline is never parked there. When no slot is free, or
  when the runtime picks the case on \<open>ctx.Done()\<close>, the call returns the context's
  cancellation or deadline error, whatever happens in between, and the wrapped reader is
  not invoked for it; when a slot is free and the runtime picks the send, the call is
  admitted and invokes the wrapped reader.
\<close>

theorem select_with_done_context:
  assumes "run b es (init_state now) = Some s"
    and "i < length (calls s)" and "c_pc (calls s ! i) = AtSelect"
    and "ctx_done (c_ctx (calls s ! i)) = Some r"
    and "step b (Select i choice) s = Some s1"
    and "run b es' s1 = Some t"
  shows "c_pc (calls s1 ! i) =
           Resolved (if limiter s < capacity b \<and> \<not> choice then Sent else CtxDone)
     \<and> (errors_Is (done_error r) Canceled \<or> errors_Is (done_error r) DeadlineExceeded)
     \<and> (if limiter s < capacity b \<and> \<not> choice
        then (c_pc (calls t ! i) = Resolved Sent \<longrightarrow>
               (\<exists>t'. step b (Resume i) t = Some t'
                  \<and> c_pc (calls t' ! i) = InWrapped
                  \<and> wrapped_calls t' = wrapped_calls t @ [(i, c_method (calls s ! i))]))
        else (c_pc (calls t ! i) = Resolved CtxDone
                \<or> c_pc (calls t ! i) = Returned (Inl (done_error r)))
           \<and> \<not> invoked t i
           \<and> (c_pc (calls t ! i) = Resolved CtxDone \<longrightarrow>
                (\<exists>t'. step b (Resume i) t = Some t'
                   \<and> c_pc (calls t' ! i) = Returned (Inl (done_error r))
                   \<and> wrapped_calls t' = wrapped_calls t)))"
proof -
  let ?c = "if limiter s < capacity b \<and> \<not> choice then Sent else CtxDone"
  note inv = reachable_invariants [OF assms(1)]
  have sel: "select_limiter b (c_ctx (calls s ! i)) choice s = Some ?c"
    by (rule select_limiter_done [OF assms(4)])
  from step_Select(3) [OF assms(5)] sel
  have s1: "s1 = set_pc i (Resolved ?c) (select_effect ?c s)" by auto
  have i1: "i < length (calls s1)" using assms(2) by (simp add: s1)
  have pc1: "c_pc (calls s1 ! i) = Resolved ?c" using assms(2) by (simp add: s1)
  have d1: "ctx_done (c_ctx (calls s1 ! i)) = Some r"
    using assms(2,4) by (simp add: s1 set_pc_def)
  have m1: "c_method (calls s1 ! i) = c_method (calls s ! i)"
    using assms(2) by (simp add: s1 set_pc_def)
  have kind: "errors_Is (done_error r) Canceled \<or> errors_Is (done_error r) DeadlineExceeded"
    by (cases r) (simp_all add: done_error_def)
  from run_same_call [OF assms(6) i1]
  have it: "i < length (calls t)" and mt: "c_method (calls t ! i) = c_method (calls s ! i)"
    using m1 by (simp_all add: same_call_def)
  show ?thesis
  proof (cases "limiter s < capacity b \<and> \<not> choice")
    case True
    have "\<exists>t'. step b (Resume i) t = Some t'
                  \<and> c_pc (calls t' ! i) = InWrapped
                  \<and> wrapped_calls t' = wrapped_calls t @ [(i, c_method (calls s ! i))]"
      if p: "c_pc (calls t ! i) = Resolved Sent"
      using Resume_Sent [OF it p, of b] it mt by simp
    with True pc1 kind show ?thesis by (simp del: step.simps)
  next
    case False
    have ni: "\<not> invoked s i"
      using not_invoked_in_waitForLimiter [OF inv(4)] assms(3) by simp
    have n1: "\<not> invoked s1 i" using ni by (simp add: s1 invoked_def)
    have a1: "aborted r (calls s1 ! i)"
      using pc1 d1 False by (simp add: aborted_def)
    from run_aborted [OF assms(6) i1 a1 n1]
    have at: "aborted r (calls t ! i)" and nt: "\<not> invoked t i" by blast+
    from at have dn: "ctx_done (c_ctx (calls t ! i)) = Some r"
      and pc: "c_pc (calls t ! i) = Resolved CtxDone
                 \<or> c_pc (calls t ! i) = Returned (Inl (done_error r))"
      by (simp_all add: aborted_def)
    have "\<exists>t'. step b (Resume i) t = Some t'
                   \<and> c_pc (calls t' ! i) = Returned (Inl (done_error r))
                   \<and> wrapped_calls t' = wrapped_calls t"
      if p: "c_pc (calls t ! i) = Resolved CtxDone"
      using Resume_CtxDone [OF it p dn, of b] it by simp
    with False pc1 kind pc nt show ?thesis by (auto simp del: step.simps)
  qed
qed

theorem select_with_done_context_witness:
  "(\<exists>s s1 t t'.
     run (NewBoundedConcurrencyTupleReader 1)
       [Invoke Read (example_context 1 None), Select 0 False, Resume 0,
        Invoke Read (example_context 2 (Some ByCancel))]
       (init_state 0) = Some s
     \<and> Suc 0 < length (calls s) \<and> c_pc (calls s ! Suc 0) = AtSelect
     \<and> ctx_done (c_ctx (calls s ! Suc 0)) = Some ByCancel
     \<and> step (NewBoundedConcurrencyTupleReader 1) (Select (Suc 0) False) s = Some s1
     \<and> run (NewBoundedConcurrencyTupleReader 1)
         [WrappedReturns 0 (Inr (IteratorValue [example_tuple])), Release 0] s1 = Some t
     \<and> c_pc (calls s1 ! Suc 0) = Resolved CtxDone
     \<and> c_pc (calls t ! Suc 0) = Resolved CtxDone
     \<and> \<not> invoked t (Suc 0)
     \<and> step (NewBoundedConcurrencyTupleReader 1) (Resume (Suc 0)) t = Some t'
     \<and> c_pc (calls t' ! Suc 0) = Returned (Inl (Sentinel Canceled))
     \<and> wrapped_calls t' = [(0, Read)])
   \<and> (\<exists>s s1 t'.
     run (NewBoundedConcurrencyTupleReader 1)
       [Invoke Read (example_context 1 (Some ByCancel))] (init_state 0) = Some s
     \<and> 0 < length (calls s) \<and> c_pc (calls s ! 0) = AtSelect
     \<and> ctx_done (c_ctx (calls s ! 0)) = Some ByCancel
     \<and> step (NewBoundedConcurrencyTupleReader 1) (Select 0 False) s = Some s1
     \<and> run (NewBoundedConcurrencyTupleReader 1) [] s1 = Some s1
     \<and> c_pc (calls s1 ! 0) = Resolved Sent
     \<and> step (NewBoundedConcurrencyTupleReader 1) (Resume 0) s1 = Some t'
     \<and> c_pc (calls t' ! 0) = InWrapped
     \<and> wrapped_calls t' = [(0, Read)])"
proof -
  have part1: "\<exists>s s1 t t'.
     run (NewBoundedConcurrencyTupleReader 1)
       [Invoke Read (example_context 1 None), Select 0 False, Resume 0,
        Invoke Read (example_context 2 (Some ByCancel))]
       (init_state 0) = Some s
     \<and> Suc 0 < length (calls s) \<and> c_pc (calls s ! Suc 0) = AtSelect
     \<and> ctx_done (c_ctx (calls s ! Suc 0)) = Some ByCancel
     \<and> step (NewBoundedConcurrencyTupleReader 1) (Select (Suc 0) False) s = Some s1
     \<and> run (NewBoundedConcurrencyTupleReader 1)
         [WrappedReturns 0 (Inr (IteratorValue [example_tuple])), Release 0] s1 = Some t
     \<and> c_pc (calls s1 ! Suc 0) = Resolved CtxDone
     \<and> c_pc (calls t ! Suc 0) = Resolved CtxDone
     \<and> \<not> invoked t (Suc 0)
     \<and> step (NewBoundedConcurrencyTupleReader 1) (Resume (Suc 0)) t = Some t'
     \<and> c_pc (calls t' ! Suc 0) = Returned (Inl (Sentinel Canceled))
     \<and> wrapped_calls t' = [(0, Read)]"
  proof -
    let ?b = "NewBoundedConcurrencyTupleReader 1"
    let ?es = "[Invoke Read (example_context 1 None), Select 0 False, Resume 0,
          Invoke Read (example_context 2 (Some ByCancel))]"
    let ?es' = "[WrappedReturns 0 (Inr (IteratorValue [example_tuple])), Release 0]"
    have "\<exists>s. run ?b ?es (init_state 0) = Some s
       \<and> Suc 0 < length (calls s) \<and> c_pc (calls s ! Suc 0) = AtSelect
       \<and> ctx_done (c_ctx (calls s ! Suc 0)) = Some ByCancel
       \<and> \<not> limiter s < capacity ?b
       \<and> (\<exists>s1. step ?b (Select (Suc 0) False) s = Some s1
             \<and> (\<exists>t. run ?b ?es' s1 = Some t
                   \<and> c_pc (calls t ! Suc 0) = Resolved CtxDone
                   \<and> wrapped_calls t = [(0, Read)]))"
      by (simp add: reader_eval)
    then obtain s s1 t where r: "run ?b ?es (init_state 0) = Some s"
      and i: "Suc 0 < length (calls s)" and pc: "c_pc (calls s ! Suc 0) = AtSelect"
      and d: "ctx_done (c_ctx (calls s ! Suc 0)) = Some ByCancel"
      and full: "\<not> limiter s < capacity ?b"
      and sel: "step ?b (Select (Suc 0) False) s = Some s1"
      and r': "run ?b ?es' s1 = Some t"
      and pct: "c_pc (calls t ! Suc 0) = Resolved CtxDone"
      and w: "wrapped_calls t = [(0, Read)]"
      by blast
    from select_with_done_context [OF r i pc d sel r'] full pct
    obtain t' where "c_pc (calls s1 ! Suc 0) = Resolved CtxDone"
      and "\<not> invoked t (Suc 0)"
      and "step ?b (Resume (Suc 0)) t = Some t'"
      and "c_pc (calls t' ! Suc 0) = Returned (Inl (done_error ByCancel))"
      and "wrapped_calls t' = wrapped_calls t"
      by auto
    with r i pc d sel r' pct w show ?thesis
      by (auto simp: done_error_def)
  qed
  have part2: "\<exists>s s1 t'.
     run (NewBoundedConcurrencyTupleReader 1)
       [Invoke Read (example_context 1 (Some ByCancel))] (init_state 0) = Some s
     \<and> 0 < length (calls s) \<and> c_pc (calls s ! 0) = AtSelect
     \<and> ctx_done (c_ctx (calls s ! 0)) = Some ByCancel
     \<and> step (NewBoundedConcurrencyTupleReader 1) (Select 0 False) s = Some s1
     \<and> run (NewBoundedConcurrencyTupleReader 1) [] s1 = Some s1
     \<and> c_pc (calls s1 ! 0) = Resolved Sent
     \<and> step (NewBoundedConcurrencyTupleReader 1) (Resume 0) s1 = Some t'
     \<and> c_pc (calls t' ! 0) = InWrapped
     \<and> wrapped_calls t' = [(0, Read)]"
  proof -
    let ?b = "NewBoundedConcurrencyTupleReader 1"
    have "\<exists>s. run ?b [Invoke Read (example_context 1 (Some ByCancel))] (init_state 0) = Some s
       \<and> 0 < length (calls s) \<and> c_pc (calls s ! 0) = AtSelect
       \<and> ctx_done (c_ctx (calls s ! 0)) = Some ByCancel
       \<and> limiter s < capacity ?b \<and> wrapped_calls s = [] \<and> c_method (calls s ! 0) = Read
       \<and> (\<exists>s1. step ?b (Select 0 False) s = Some s1
             \<and> c_pc (calls s1 ! 0) = Resolved Sent \<and> wrapped_calls s1 = [])"
      by (simp add: reader_eval)
    then obtain s s1 where r: "run ?b [Invoke Read (example_context 1 (Some ByCancel))] (init_state 0) = Some s"
      and i: "0 < length (calls s)" and pc: "c_pc (calls s ! 0) = AtSelect"
      and d: "ctx_done (c_ctx (calls s ! 0)) = Some ByCancel"
      and room: "limiter s < capacity ?b" and w: "wrapped_calls s = []"
      and m: "c_method (calls s ! 0) = Read"
      and sel: "step ?b (Select 0 False) s = Some s1"
      and pc1: "c_pc (calls s1 ! 0) = Resolved Sent" and w1: "wrapped_calls s1 = []"
      by blast
    have r': "run ?b [] s1 = Some s1" by simp
    from select_with_done_context [OF r i pc d sel r'] room pc1
    obtain t' where "step ?b (Resume 0) s1 = Some t'" and "c_pc (calls t' ! 0) = InWrapped"
      and "wrapped_calls t' = wrapped_calls s1 @ [(0, c_method (calls s ! 0))]"
      by auto
    with r i pc d sel r' pc1 w1 m show ?thesis by auto
  qed
  from part1 part2 show ?thesis by (rule conjI)
qed

text \<open>
  The claim as the specification words it fails: with a free slot, a call made with a
  context that is already cancelled can be admitted; \<open>waitForLimiter\<close> returns nil and
  the wrapped reader is invoked.
\<close>

theorem cancelled_call_admitted_counterexample:
  "run (NewBoundedConcurrencyTupleReader 1)
     [Invoke Read (example_context 1 (Some ByCancel)), Select 0 False, Resume 0]
     (init_state 0)
   = Some \<lparr> limiter = 1,
            calls = [\<lparr> c_method = Read, c_ctx = example_context 1 (Some ByCancel),
                      c_start = 0, c_pc = InWrapped \<rparr>],
            clock = 0,
            histogram = [(''openfga.v1.OpenFGAService'', ''Check'', 0)],
            span_log = [(1, ''time_waiting'', 0)],
            wrapped_calls = [(0, Read)] \<rparr>"
  by (simp add: reader_eval)

text \<open>
  Claim C9: a call leaves \<open>waitForLimiter\<close> through its deferred function, after
  admission as after the case on \<open>ctx.Done()\<close>. The function adds one observation to the
  histogram, labelled with the service and method of the call's context and valued with
  the milliseconds that have passed since the call entered \<open>waitForLimiter\<close>, and sets
  the attribute \<open>time_waiting\<close> of the context's span to the same value. No other step of
  a call writes either, so at every moment the observations are as many as the calls that
  have left \<open>waitForLimiter\<close>: one for each.
\<close>

theorem wait_recorded_once:
  assumes "run b es (init_state now) = Some s0"
    and "run b (Invoke m ctx # es') s0 = Some s"
    and "step b (Resume (length (calls s0))) s = Some s'"
  shows "histogram s' = histogram s @
           [(Service (ctx_rpcInfo ctx), Method (ctx_rpcInfo ctx),
             Milliseconds (clock s - clock s0))]
    \<and> span_log s' = span_log s @
           [(ctx_span ctx, ''time_waiting'', Milliseconds (clock s - clock s0))]
    \<and> (c_pc (calls s' ! length (calls s0)) = InWrapped
         \<or> (\<exists>err. c_pc (calls s' ! length (calls s0)) = Returned (Inl err)))
    \<and> length (histogram s) = passed s \<and> length (span_log s) = passed s
    \<and> length (histogram s') = passed s' \<and> length (span_log s') = passed s'"
proof -
  let ?i = "length (calls s0)"
  let ?s1 = "s0\<lparr>calls := calls s0 @ [\<lparr> c_method = m, c_ctx = ctx, c_start = clock s0, c_pc = AtSelect \<rparr>]\<rparr>"
  have inv0: "reader_inv b s0" using run_invariants [OF init_invariants assms(1)] .
  have inv: "reader_inv b s" using run_invariants [OF inv0 assms(2)] .
  have inv': "reader_inv b s'" using step_invariants [OF inv assms(3)] .
  from assms(2) have r1: "run b es' ?s1 = Some s" by simp
  have i1: "?i < length (calls ?s1)" by simp
  from run_same_call [OF r1 i1]
  have same: "same_call (calls ?s1 ! ?i) (calls s ! ?i)" by blast
  then have st: "c_start (calls s ! ?i) = clock s0"
    and ri: "ctx_rpcInfo (c_ctx (calls s ! ?i)) = ctx_rpcInfo ctx"
    and sp: "ctx_span (c_ctx (calls s ! ?i)) = ctx_span ctx"
    by (simp_all add: same_call_def)
  from inv inv' have "recorded_inv s" "recorded_inv s'" by (simp_all add: reader_inv_def)
  then show ?thesis
    using step_Resume_logs(1,2,3) [OF assms(3)] st ri sp
    by (simp add: recorded_inv_def timeWaitingSpanAttribute_def)
qed

theorem wait_recorded_once_witness:
  "\<exists>s0 s s'.
     run (NewBoundedConcurrencyTupleReader 1)
       [Invoke Read (example_context 1 None), Select 0 False, Resume 0, Elapse 2000000]
       (init_state 0) = Some s0
     \<and> length (calls s0) = Suc 0 \<and> clock s0 = 2000000
     \<and> run (NewBoundedConcurrencyTupleReader 1)
         (Invoke ReadUserTuple (example_context 2 None) #
          [Select (Suc 0) False, Elapse 3500000, Cancel (Suc 0) ByDeadline]) s0 = Some s
     \<and> clock s = 5500000
     \<and> step (NewBoundedConcurrencyTupleReader 1) (Resume (length (calls s0))) s = Some s'
     \<and> histogram s = [(''openfga.v1.OpenFGAService'', ''Check'', 0)]
     \<and> histogram s' = [(''openfga.v1.OpenFGAService'', ''Check'', 0),
                         (''openfga.v1.OpenFGAService'', ''Check'', 3)]
     \<and> span_log s' = [(1, ''time_waiting'', 0), (2, ''time_waiting'', 3)]
     \<and> passed s' = 2"
proof -
  let ?b = "NewBoundedConcurrencyTupleReader 1"
  let ?es = "[Invoke Read (example_context 1 None), Select 0 False, Resume 0, Elapse 2000000]"
  let ?es' = "[Select (Suc 0) False, Elapse 3500000, Cancel (Suc 0) ByDeadline]"
  let ?ctx = "example_context 2 None"
  have "\<exists>s0. run ?b ?es (init_state 0) = Some s0
     \<and> length (calls s0) = Suc 0 \<and> clock s0 = 2000000
     \<and> (\<exists>s. run ?b (Invoke ReadUserTuple ?ctx # ?es') s0 = Some s
           \<and> clock s = 5500000
           \<and> histogram s = [(''openfga.v1.OpenFGAService'', ''Check'', 0)]
           \<and> span_log s = [(1, ''time_waiting'', 0)]
           \<and> (\<exists>s'. step ?b (Resume (Suc 0)) s = Some s'))"
    by (simp add: reader_eval)
  then obtain s0 s s' where r0: "run ?b ?es (init_state 0) = Some s0"
    and n0: "length (calls s0) = Suc 0" and c0: "clock s0 = 2000000"
    and r: "run ?b (Invoke ReadUserTuple ?ctx # ?es') s0 = Some s"
    and c: "clock s = 5500000"
    and h: "histogram s = [(''openfga.v1.OpenFGAService'', ''Check'', 0)]"
    and sp: "span_log s = [(1, ''time_waiting'', 0)]"
    and st: "step ?b (Resume (Suc 0)) s = Some s'"
    by blast
  from st n0 have st': "step ?b (Resume (length (calls s0))) s = Some s'" by simp
  from wait_recorded_once [OF r0 r st']
  have w1: "histogram s' = histogram s @
           [(Service (ctx_rpcInfo ?ctx), Method (ctx_rpcInfo ?ctx),
             Milliseconds (clock s - clock s0))]"
    and w2: "span_log s' = span_log s @
           [(ctx_span ?ctx, ''time_waiting'', Milliseconds (clock s - clock s0))]"
    and w3: "length (histogram s') = passed s'"
    by blast+
  have a: "histogram s' = [(''openfga.v1.OpenFGAService'', ''Check'', 0),
                         (''openfga.v1.OpenFGAService'', ''Check'', 3)]"
    by (simp add: w1 h c c0 Milliseconds_def example_context_def)
  have b: "span_log s' = [(1, ''time_waiting'', 0), (2, ''time_waiting'', 3)]"
    by (simp add: w2 sp c c0 Milliseconds_def example_context_def)
  have "passed s' = 2" using w3 by (simp add: a)
  with r0 n0 c0 r c st' h a b show ?thesis by blast
qed

end
